theory Spec2Isabelle
  imports Main "HOL-Library.Word"
begin

section \<open>csv2XLsheet: appending delimited records to a spreadsheet sheet\<close>

text \<open>
  The program is the single Go function \<open>main\<close> of \<open>csv2XLsheet.go\<close>. It is embedded
  here stage by stage, in the order of the source. A Go \<open>string\<close> is a sequence of
  bytes, which is what \<^typ>\<open>string\<close> is. Go's \<open>int\<close> is taken at 64 bits: the
  start row, which the user supplies, and the line counter compared with it are
  \<^typ>\<open>64 word\<close>, so that \<open>*startRow-1\<close> wraps as it does in Go. Lengths of slices
  and the counters bounded by them are \<^typ>\<open>nat\<close>.
\<close>

subsection \<open>The library functions that main calls\<close>

text \<open>
  A rune is a Unicode code point. \<open>utf8.RuneError\<close> is U+FFFD, which the decoder
  returns with width 1 for a byte that starts no well-formed encoding.
\<close>

type_synonym rune = nat

definition RuneError :: rune where
  "RuneError = 0xFFFD"

text \<open>
  \<open>utf8.DecodeRuneInString\<close>: the first rune of the string and its width in bytes.
  The first byte decides the width and the range accepted for the second byte
  (Go's tables \<open>first\<close> and \<open>acceptRanges\<close>); every later byte must be a
  continuation byte \<open>0x80..0xBF\<close>.
\<close>

fun DecodeRuneInString :: "string \<Rightarrow> rune \<times> nat" where
  "DecodeRuneInString [] = (RuneError, 0)"
| "DecodeRuneInString (c0 # s) =
     (let s0 = (of_char c0 :: nat) in
      if s0 < 0x80 then (s0, 1)
      else if s0 < 0xC2 \<or> 0xF4 < s0 then (RuneError, 1)
      else
        let sz = (if s0 < 0xE0 then 2 else if s0 < 0xF0 then 3 else 4 :: nat);
            lo = (if s0 = 0xE0 then 0xA0 else if s0 = 0xF0 then 0x90 else 0x80 :: nat);
            hi = (if s0 = 0xED then 0x9F else if s0 = 0xF4 then 0x8F else 0xBF :: nat)
        in
        if Suc (length s) < sz then (RuneError, 1)
        else
          let s1 = (of_char (s ! 0) :: nat) in
          if s1 < lo \<or> hi < s1 then (RuneError, 1)
          else if sz \<le> 2 then ((s0 mod 32) * 64 + s1 mod 64, 2)
          else
            let s2 = (of_char (s ! 1) :: nat) in
            if s2 < 0x80 \<or> 0xBF < s2 then (RuneError, 1)
            else if sz \<le> 3 then ((s0 mod 16) * 4096 + (s1 mod 64) * 64 + s2 mod 64, 3)
            else
              let s3 = (of_char (s ! 2) :: nat) in
              if s3 < 0x80 \<or> 0xBF < s3 then (RuneError, 1)
              else ((s0 mod 8) * 262144 + (s1 mod 64) * 4096 + (s2 mod 64) * 64
                      + s3 mod 64, 4))"

text \<open>
  \<open>utf8.RuneCountInString\<close>: the number of runes, an ill-formed byte counting as one
  rune of width 1.
\<close>

function RuneCountInString :: "string \<Rightarrow> nat" where
  "RuneCountInString s =
     (if s = [] then 0
      else Suc (RuneCountInString (drop (snd (DecodeRuneInString s)) s)))"
  by pat_completeness auto
termination
  by (relation "measure length") (auto simp: Let_def neq_Nil_conv)

declare RuneCountInString.simps [simp del]

text \<open>
  \<open>utf8.ValidRune\<close>: the code points that have a UTF-8 encoding, which are those up
  to U+10FFFF that are not surrogates.
\<close>

definition ValidRune :: "rune \<Rightarrow> bool" where
  "ValidRune r = (r < 0xD800 \<or> (0xDFFF < r \<and> r \<le> 0x10FFFF))"

text \<open>
  The conversion \<open>string(r)\<close> of a rune: its UTF-8 encoding, and the encoding of
  U+FFFD for a surrogate or a value beyond U+10FFFF.
\<close>

definition EncodeRune :: "rune \<Rightarrow> string" where
  "EncodeRune r =
     (if r < 0x80 then [char_of r]
      else if r < 0x800 then [char_of (0xC0 + r div 64), char_of (0x80 + r mod 64)]
      else if (0xD800 \<le> r \<and> r \<le> 0xDFFF) \<or> 0x10FFFF < r
        then [CHR 0xEF, CHR 0xBF, CHR 0xBD]
      else if r < 0x10000
        then [char_of (0xE0 + r div 4096), char_of (0x80 + (r div 64) mod 64),
              char_of (0x80 + r mod 64)]
      else [char_of (0xF0 + r div 262144), char_of (0x80 + (r div 4096) mod 64),
            char_of (0x80 + (r div 64) mod 64), char_of (0x80 + r mod 64)])"

text \<open>\<open>strings.ReplaceAll(s, "\"", "")\<close> deletes every quotation mark (byte 0x22).\<close>

definition strip_quotes :: "string \<Rightarrow> string" where
  "strip_quotes s = filter (\<lambda>c. c \<noteq> CHR 0x22) s"

text \<open>\<open>strings.Join(elems, sep)\<close>.\<close>

fun Join :: "string list \<Rightarrow> string \<Rightarrow> string" where
  "Join [] sep = []"
| "Join [x] sep = x"
| "Join (x # y # ys) sep = x @ sep @ Join (y # ys) sep"

text \<open>
  \<open>filepath.Ext(path)\<close>: the suffix from the last dot of the last path element,
  empty when that element has no dot. The scan runs from the end of the path and
  stops at a separator (\<open>/\<close>).
\<close>

fun ext_scan :: "string \<Rightarrow> string \<Rightarrow> string" where
  "ext_scan [] acc = []"
| "ext_scan (c # cs) acc =
     (if c = CHR ''/'' then []
      else if c = CHR ''.'' then c # acc
      else ext_scan cs (c # acc))"

definition Ext :: "string \<Rightarrow> string" where
  "Ext path = ext_scan (rev path) []"

text \<open>\<open>strings.TrimSuffix(s, suffix)\<close>.\<close>

definition TrimSuffix :: "string \<Rightarrow> string \<Rightarrow> string" where
  "TrimSuffix s suffix =
     (if length suffix \<le> length s \<and> drop (length s - length suffix) s = suffix
      then take (length s - length suffix) s else s)"

subsection \<open>Inputs, state and exits of a run\<close>

text \<open>The flags, as \<open>flag.Parse\<close> leaves them.\<close>

record flags =
  sourceFile :: string
  templateFile :: string
  sheetName :: string
  delimiter :: string
  outputFile :: string
  startRow :: "64 word"

text \<open>
  One call of \<open>reader.Read\<close> returns a record, or a record with an error other
  than end of input, or end of input.
\<close>

datatype read_result = Record "string list" | ParseError "string list" | EOF

text \<open>
  What the world outside answers: the length of \<open>os.Args\<close>; whether \<open>os.Open\<close>
  succeeds; the result of the k-th call of \<open>reader.Read\<close> for a reader with the given
  separator; whether \<open>os.Create\<close> of the log succeeds; and the spreadsheet library's
  answers (\<open>OpenFile\<close>, \<open>GetSheetList\<close>, \<open>GetSheetIndex\<close>, \<open>GetRows\<close>, \<open>SaveAs\<close>).
\<close>

record env =
  osArgs :: nat
  openSource :: bool
  csvRead :: "rune \<Rightarrow> nat \<Rightarrow> read_result"
  createLog :: bool
  openTemplate :: bool
  sheetList :: "string list"
  getSheetIndex :: bool
  getRows :: "string list list option"
  saveAs :: bool

text \<open>Every \<open>log.Fatal\<close> of main.\<close>

datatype fatal =
    MissingFlags
  | InvalidDelimiter string
  | OpenInputFailed
  | CreateLogFailed
  | OpenTemplateFailed
  | SheetMissing string
  | SheetIndexFailed
  | GetRowsFailed
  | SaveFailed

text \<open>
  How a run ends: the usage text and exit 0, a fatal error, or the success message,
  with the error total and the log's name when \<open>hasErrors\<close> is set.
\<close>

datatype outcome = UsageExit | Fatal fatal | Success string string "(nat \<times> string) option"

text \<open>
  The variables of main and what the run has written: the log file (its name and the
  strings written to it, \<open>None\<close> until \<open>os.Create\<close> has succeeded), the cell
  writes in order, and the name of the saved file. A cell write is the column and row
  given to \<open>CoordinatesToCellName\<close> with the value given to \<open>SetCellValue\<close>; main
  discards the errors of both calls.
\<close>

record run_state =
  hasErrors :: bool
  logFile :: "(string \<times> string list) option"
  errorCount :: nat
  notAppendedCount :: nat
  csvData :: "string list list"
  lineNumber :: "64 word"
  cellWrites :: "(nat \<times> nat \<times> string) list"
  saved :: "string option"

definition init_state :: run_state where
  "init_state = \<lparr> hasErrors = False, logFile = None, errorCount = 0, notAppendedCount = 0,
     csvData = [], lineNumber = 0, cellWrites = [], saved = None \<rparr>"

subsection \<open>Delimiter (lines 61-73)\<close>

definition resolve_delimiter :: "string \<Rightarrow> fatal + rune" where
  "resolve_delimiter d =
     (if d = ''csv'' then Inr (of_char CHR '','')
      else if d = ''tab'' then Inr (of_char CHR 0x09)
      else if RuneCountInString d = 1 then Inr (fst (DecodeRuneInString d))
      else Inl (InvalidDelimiter d))"

subsection \<open>The log (lines 76, 103-110 and 176-183)\<close>

definition logFileName :: "string \<Rightarrow> string" where
  "logFileName outputFileName = TrimSuffix outputFileName (Ext outputFileName) @ ''-errors.log''"

text \<open>
  Both loops open the log in the same way before they write to it: when \<open>hasErrors\<close>
  is not set they set it and create the file, and a failure to create it is fatal.
\<close>

definition open_log :: "bool \<Rightarrow> string \<Rightarrow> run_state \<Rightarrow> (fatal \<times> run_state) + run_state" where
  "open_log creatable name st =
     (if \<not> hasErrors st then
        (if creatable then Inr (st\<lparr>hasErrors := True, logFile := Some (name, [])\<rparr>)
         else Inl (CreateLogFailed, st\<lparr>hasErrors := True\<rparr>))
      else Inr st)"

text \<open>
  \<open>logFile.WriteString(s)\<close>, its result discarded: on a nil file it writes nothing.
\<close>

definition write_log :: "string \<Rightarrow> run_state \<Rightarrow> run_state" where
  "write_log s st = st\<lparr>logFile := map_option (\<lambda>(name, ws). (name, ws @ [s])) (logFile st)\<rparr>"

subsection \<open>Reading the source (lines 95-125)\<close>

definition sanitize :: "string list \<Rightarrow> string list" where
  "sanitize record = map strip_quotes record"

text \<open>
  The body of the reading loop for a result that is not end of input. The arguments
  are \<open>createLog\<close>, the log's name, \<open>string(reader.Comma)\<close> and \<open>*startRow\<close>.
\<close>

fun read_step ::
  "bool \<Rightarrow> string \<Rightarrow> string \<Rightarrow> 64 word \<Rightarrow> read_result \<Rightarrow> run_state
     \<Rightarrow> (fatal \<times> run_state) + run_state" where
  "read_step creatable name sep start (ParseError record) st =
     (case open_log creatable name st of
        Inl e \<Rightarrow> Inl e
      | Inr st1 \<Rightarrow>
          let rawLine = Join record sep;
              st2 = write_log (''Error reading line: '' @ rawLine @ [CHR 0x0A]) st1
          in Inr (st2\<lparr>errorCount := errorCount st2 + 1\<rparr>))"
| "read_step creatable name sep start (Record record) st =
     (let st1 = (if start - 1 \<le>s lineNumber st
                 then st\<lparr>csvData := csvData st @ [sanitize record]\<rparr> else st)
      in Inr (st1\<lparr>lineNumber := lineNumber st1 + 1\<rparr>))"
| "read_step creatable name sep start EOF st = Inr st"

text \<open>
  The loop itself. It ends at the first end of input or at a fatal error, and with a
  reader that never reports end of input it does not end: the value is then \<open>None\<close>.
  \<open>k\<close> counts the calls of \<open>reader.Read\<close>.
\<close>

partial_function (option) read_loop ::
  "(nat \<Rightarrow> read_result) \<Rightarrow> bool \<Rightarrow> string \<Rightarrow> string \<Rightarrow> 64 word \<Rightarrow> nat \<Rightarrow> run_state
     \<Rightarrow> ((fatal \<times> run_state) + run_state) option" where
  "read_loop rd creatable name sep start k st =
     (case rd k of
        EOF \<Rightarrow> Some (Inr st)
      | Record record \<Rightarrow>
          (case read_step creatable name sep start (Record record) st of
             Inl e \<Rightarrow> Some (Inl e)
           | Inr st' \<Rightarrow> read_loop rd creatable name sep start (Suc k) st')
      | ParseError record \<Rightarrow>
          (case read_step creatable name sep start (ParseError record) st of
             Inl e \<Rightarrow> Some (Inl e)
           | Inr st' \<Rightarrow> read_loop rd creatable name sep start (Suc k) st'))"

text \<open>
  The same loop over the finite sequence of results that the reader returns before
  its first end of input.
\<close>

fun read_all ::
  "bool \<Rightarrow> string \<Rightarrow> string \<Rightarrow> 64 word \<Rightarrow> read_result list \<Rightarrow> run_state
     \<Rightarrow> (fatal \<times> run_state) + run_state" where
  "read_all creatable name sep start [] st = Inr st"
| "read_all creatable name sep start (r # rs) st =
     (case read_step creatable name sep start r st of
        Inl e \<Rightarrow> Inl e
      | Inr st' \<Rightarrow> read_all creatable name sep start rs st')"

text \<open>The records and the failed lines among the results, in order.\<close>

fun parsed :: "read_result list \<Rightarrow> string list list" where
  "parsed [] = []"
| "parsed (Record record # rs) = record # parsed rs"
| "parsed (r # rs) = parsed rs"

fun unparseable :: "read_result list \<Rightarrow> string list list" where
  "unparseable [] = []"
| "unparseable (ParseError record # rs) = record # unparseable rs"
| "unparseable (r # rs) = unparseable rs"

subsection \<open>The target sheet (lines 134-167)\<close>

fun sheetExists :: "string list \<Rightarrow> string \<Rightarrow> bool" where
  "sheetExists [] targetSheetName = False"
| "sheetExists (name # names) targetSheetName =
     (if name = targetSheetName then True else sheetExists names targetSheetName)"

definition maxCols :: "string list list \<Rightarrow> nat" where
  "maxCols rows = (if length rows > 0 then length (rows ! 0) else 16384)"

definition nextRow :: "string list list \<Rightarrow> nat" where
  "nextRow rows = length rows + 1"

subsection \<open>Placing the records (lines 170-195)\<close>

text \<open>The inner loop: one \<open>SetCellValue\<close> per field, at column \<open>j+1\<close> of the given row.\<close>

fun set_cells :: "nat \<Rightarrow> nat \<Rightarrow> string list \<Rightarrow> (nat \<times> nat \<times> string) list" where
  "set_cells r j [] = []"
| "set_cells r j (v # vs) = (j + 1, r, v) # set_cells r (j + 1) vs"

text \<open>
  The body of the outer loop for the record \<open>row\<close> at index \<open>i\<close>; \<open>cap\<close> and \<open>nxt\<close>
  are \<open>maxCols\<close> and \<open>nextRow\<close>.
\<close>

definition place_row ::
  "bool \<Rightarrow> string \<Rightarrow> string \<Rightarrow> nat \<Rightarrow> nat \<Rightarrow> nat \<Rightarrow> string list \<Rightarrow> run_state
     \<Rightarrow> (fatal \<times> run_state) + run_state" where
  "place_row creatable name sep cap nxt i row st =
     (let numFields = length row in
      if numFields > cap then
        (case open_log creatable name st of
           Inl e \<Rightarrow> Inl e
         | Inr st1 \<Rightarrow>
             let rawLine = Join row sep;
                 st2 = write_log (''Not appended (too many fields): '' @ rawLine @ [CHR 0x0A]) st1
             in Inr (st2\<lparr>notAppendedCount := notAppendedCount st2 + 1\<rparr>))
      else Inr (st\<lparr>cellWrites := cellWrites st @ set_cells (nxt + i) 0 row\<rparr>))"

fun place_loop ::
  "bool \<Rightarrow> string \<Rightarrow> string \<Rightarrow> nat \<Rightarrow> nat \<Rightarrow> nat \<Rightarrow> string list list \<Rightarrow> run_state
     \<Rightarrow> (fatal \<times> run_state) + run_state" where
  "place_loop creatable name sep cap nxt i [] st = Inr st"
| "place_loop creatable name sep cap nxt i (row # rows) st =
     (case place_row creatable name sep cap nxt i row st of
        Inl e \<Rightarrow> Inl e
      | Inr st' \<Rightarrow> place_loop creatable name sep cap nxt (i + 1) rows st')"

subsection \<open>main\<close>

text \<open>Lines 127-208: from opening the template to the summary.\<close>

definition append_to_sheet :: "env \<Rightarrow> flags \<Rightarrow> string \<Rightarrow> run_state \<Rightarrow> outcome \<times> run_state" where
  "append_to_sheet e fl sep st =
     (if \<not> openTemplate e then (Fatal OpenTemplateFailed, st)
      else if \<not> sheetExists (sheetList e) (sheetName fl)
        then (Fatal (SheetMissing (sheetName fl)), st)
      else if \<not> getSheetIndex e then (Fatal SheetIndexFailed, st)
      else
        (case getRows e of
           None \<Rightarrow> (Fatal GetRowsFailed, st)
         | Some rows \<Rightarrow>
             (case place_loop (createLog e) (logFileName (outputFile fl)) sep
                     (maxCols rows) (nextRow rows) 0 (csvData st) st of
                Inl (err, st') \<Rightarrow> (Fatal err, st')
              | Inr st' \<Rightarrow>
                  if \<not> saveAs e then (Fatal SaveFailed, st')
                  else (Success (outputFile fl) (sheetName fl)
                          (if hasErrors st'
                           then Some (errorCount st' + notAppendedCount st',
                                      logFileName (outputFile fl))
                           else None),
                        st'\<lparr>saved := Some (outputFile fl)\<rparr>))))"

text \<open>
  The whole of main after \<open>flag.Parse\<close>. The result is the exit and the state at the
  exit, or \<open>None\<close> when the reading loop does not end.
\<close>

definition main :: "env \<Rightarrow> flags \<Rightarrow> (outcome \<times> run_state) option" where
  "main e fl =
     (if osArgs e = 1 then Some (UsageExit, init_state)
      else if sourceFile fl = [] \<or> templateFile fl = [] \<or> outputFile fl = [] \<or> sheetName fl = []
        then Some (Fatal MissingFlags, init_state)
      else
        (case resolve_delimiter (delimiter fl) of
           Inl err \<Rightarrow> Some (Fatal err, init_state)
         | Inr delim \<Rightarrow>
             if \<not> openSource e then Some (Fatal OpenInputFailed, init_state)
             else
               (case read_loop (csvRead e delim) (createLog e) (logFileName (outputFile fl))
                       (EncodeRune delim) (startRow fl) 0 init_state of
                  None \<Rightarrow> None
                | Some (Inl (err, st)) \<Rightarrow> Some (Fatal err, st)
                | Some (Inr st) \<Rightarrow> Some (append_to_sheet e fl (EncodeRune delim) st))))"

subsection \<open>Notions used in the statements\<close>

text \<open>
  The decoder either consumes one byte, or returns a valid rune whose encoding is the
  prefix of the string that it consumed.
\<close>

definition one_rune :: "string \<Rightarrow> bool" where
  "one_rune d = (snd (DecodeRuneInString d) = 1
     \<or> (\<exists>r. ValidRune r \<and> DecodeRuneInString d = (r, length (EncodeRune r))
            \<and> take (length (EncodeRune r)) d = EncodeRune r))"

text \<open>The strings written to the log so far.\<close>

definition log_lines :: "(string \<times> string list) option \<Rightarrow> string list" where
  "log_lines lf = (case lf of None \<Rightarrow> [] | Some (name, ws) \<Rightarrow> ws)"

text \<open>
  The log is open exactly when \<open>hasErrors\<close> is set, and under the name computed at
  line 76.
\<close>

definition log_inv :: "string \<Rightarrow> run_state \<Rightarrow> bool" where
  "log_inv nm st = (case logFile st of None \<Rightarrow> \<not> hasErrors st | Some (n, ws) \<Rightarrow> hasErrors st \<and> n = nm)"

text \<open>The records with more fields than the sheet has columns.\<close>

definition oversized :: "nat \<Rightarrow> string list list \<Rightarrow> string list list" where
  "oversized cap rows = filter (\<lambda>row. cap < length row) rows"

text \<open>
  The accepted records of a source, from the results the reader returns: the parsed
  lines from the start offset on, sanitized.
\<close>

definition accepted :: "64 word \<Rightarrow> read_result list \<Rightarrow> string list list" where
  "accepted start rs = map sanitize (drop (nat (sint (start - 1))) (parsed rs))"

text \<open>
  The rows of the target sheet when the run gets to placing: the template opens, the
  sheet exists, and its index and its rows are read.
\<close>

definition placing_rows :: "env \<Rightarrow> flags \<Rightarrow> string list list option" where
  "placing_rows e fl =
     (if openTemplate e \<and> sheetName fl \<in> set (sheetList e) \<and> getSheetIndex e
      then getRows e else None)"

text \<open>
  The failures of a run that reads the results \<open>rs\<close>, as their log entries and in the
  order the run meets them: the unparseable lines of the source, then, when the run gets
  to placing, the accepted records that are wider than the sheet.
\<close>

definition failures :: "env \<Rightarrow> flags \<Rightarrow> string \<Rightarrow> read_result list \<Rightarrow> string list" where
  "failures e fl sep rs =
     map (\<lambda>rec. ''Error reading line: '' @ Join rec sep @ [CHR 0x0A]) (unparseable rs)
     @ (case placing_rows e fl of
          None \<Rightarrow> []
        | Some rows \<Rightarrow>
            map (\<lambda>row. ''Not appended (too many fields): '' @ Join row sep @ [CHR 0x0A])
              (oversized (maxCols rows) (accepted (startRow fl) rs)))"

text \<open>A reader that returns the given results, then end of input.\<close>

definition reader_of :: "read_result list \<Rightarrow> nat \<Rightarrow> read_result" where
  "reader_of rs k = (if k < length rs then rs ! k else EOF)"

section \<open>UTF-8: decoding an encoded rune, and strings of one rune\<close>

lemma RuneCount_Nil: "RuneCountInString [] = 0"
  by (simp add: RuneCountInString.simps)

lemma RuneCount_Cons:
  "RuneCountInString (c # s)
     = Suc (RuneCountInString (drop (snd (DecodeRuneInString (c # s))) (c # s)))"
  by (subst RuneCountInString.simps) simp

lemma decode1: "r < 0x80 \<Longrightarrow> DecodeRuneInString [char_of r] = (r, 1)"
  by (simp add: Let_def)

lemma mod_shift: "q < n \<Longrightarrow> (k * n + q) mod n = (q::nat)"
  by simp

lemma decode2:
  assumes "2 \<le> q" "q < 32" "m < 64"
  shows "DecodeRuneInString (char_of (0xC0 + q) # char_of (0x80 + m) # rest) = (q * 64 + m, 2)"
proof -
  have b: "(192 + q) mod 256 = 192 + q" "(128 + m) mod 256 = 128 + m"
    using assms by simp_all
  have c: "(192 + q) mod 32 = q" "(128 + m) mod 64 = m"
    using assms mod_shift [of q 32 6] mod_shift [of m 64 2] by simp_all
  have s0: "of_char (char_of (0xC0 + q) :: char) = 192 + q"
    and s1: "of_char (char_of (0x80 + m) :: char) = 128 + m"
    using b by simp_all
  show ?thesis
    apply (simp only: DecodeRuneInString.simps Let_def s0 s1 nth_Cons_0 list.size)
    using assms by (simp add: c)
qed

lemma digits:
  fixes r :: nat
  obtains a m where "r = 64 * a + m" "m < 64" "r div 64 = a" "r mod 64 = m"
  by (metis mod_less_divisor mult_div_mod_eq zero_less_numeral)

lemma div_4096: "(r::nat) div 4096 = r div 64 div 64"
  by (simp add: div_mult2_eq [symmetric])

lemma div_262144: "(r::nat) div 262144 = r div 64 div 64 div 64"
  by (simp add: div_mult2_eq [symmetric])

lemma decode3:
  assumes "q0 < 16" "q1 < 64" "m < 64" "q0 = 0 \<longrightarrow> 32 \<le> q1" "q0 = 13 \<longrightarrow> q1 < 32"
  shows "DecodeRuneInString (char_of (0xE0 + q0) # char_of (0x80 + q1) # char_of (0x80 + m) # rest)
    = (q0 * 4096 + q1 * 64 + m, 3)"
proof -
  have b: "(224 + q0) mod 256 = 224 + q0" "(128 + q1) mod 256 = 128 + q1"
    "(128 + m) mod 256 = 128 + m"
    using assms by simp_all
  have c: "(224 + q0) mod 16 = q0" "(128 + q1) mod 64 = q1" "(128 + m) mod 64 = m"
    using assms mod_shift [of q0 16 14] mod_shift [of q1 64 2] mod_shift [of m 64 2] by simp_all
  have s0: "of_char (char_of (0xE0 + q0) :: char) = 224 + q0"
    and s1: "of_char (char_of (0x80 + q1) :: char) = 128 + q1"
    and s2: "of_char (char_of (0x80 + m) :: char) = 128 + m"
    using b by simp_all
  show ?thesis
    apply (simp only: DecodeRuneInString.simps Let_def s0 s1 s2 nth_Cons_0 nth_Cons_Suc
        One_nat_def list.size)
    using assms by (auto simp: c)
qed

lemma decode4:
  assumes "q0 \<le> 4" "q1 < 64" "q2 < 64" "m < 64" "q0 = 0 \<longrightarrow> 16 \<le> q1" "q0 = 4 \<longrightarrow> q1 < 16"
  shows "DecodeRuneInString (char_of (0xF0 + q0) # char_of (0x80 + q1) # char_of (0x80 + q2)
       # char_of (0x80 + m) # rest)
    = (q0 * 262144 + q1 * 4096 + q2 * 64 + m, 4)"
proof -
  have b: "(240 + q0) mod 256 = 240 + q0" "(128 + q1) mod 256 = 128 + q1"
    "(128 + q2) mod 256 = 128 + q2" "(128 + m) mod 256 = 128 + m"
    using assms by simp_all
  have c: "(240 + q0) mod 8 = q0" "(128 + q1) mod 64 = q1" "(128 + q2) mod 64 = q2"
    "(128 + m) mod 64 = m"
    using assms mod_shift [of q0 8 30] mod_shift [of q1 64 2] mod_shift [of q2 64 2]
      mod_shift [of m 64 2] by simp_all
  have s0: "of_char (char_of (0xF0 + q0) :: char) = 240 + q0"
    and s1: "of_char (char_of (0x80 + q1) :: char) = 128 + q1"
    and s2: "of_char (char_of (0x80 + q2) :: char) = 128 + q2"
    and s3: "of_char (char_of (0x80 + m) :: char) = 128 + m"
    using b by simp_all
  have n2: "(c1 # c2 # c3 # rest) ! 2 = c3" for c1 c2 c3 :: char by simp
  have n1: "(c1 # c2 # c3 # rest) ! 1 = c2" for c1 c2 c3 :: char by simp
  show ?thesis
    apply (simp only: DecodeRuneInString.simps Let_def n1 n2 s0 s1 s2 s3 nth_Cons_0 list.size)
    using assms by (auto simp: c)
qed

lemma encode1: "r < 0x80 \<Longrightarrow> EncodeRune r = [char_of r]"
  by (simp add: EncodeRune_def)

lemma encode2:
  assumes "0x80 \<le> r" "r < 0x800"
  obtains q m where "EncodeRune r = [char_of (0xC0 + q), char_of (0x80 + m)]"
    "r = q * 64 + m" "2 \<le> q" "q < 32" "m < 64"
proof -
  obtain a m where d: "r = 64 * a + m" "m < 64" "r div 64 = a" "r mod 64 = m"
    by (rule digits)
  have e: "EncodeRune r = [char_of (0xC0 + a), char_of (0x80 + m)]"
    using assms d(3,4) by (simp add: EncodeRune_def)
  have "2 \<le> a" "a < 32" using assms d(1,2) by linarith+
  then show thesis using that [OF e] d(1,2) by simp
qed

lemma encode3:
  assumes "0x800 \<le> r" "r < 0x10000" "r < 0xD800 \<or> 0xDFFF < r"
  obtains x y m where
    "EncodeRune r = [char_of (0xE0 + x), char_of (0x80 + y), char_of (0x80 + m)]"
    "r = x * 4096 + y * 64 + m" "x < 16" "y < 64" "m < 64"
    "x = 0 \<longrightarrow> 32 \<le> y" "x = 13 \<longrightarrow> y < 32"
proof -
  obtain a m where d: "r = 64 * a + m" "m < 64" "r div 64 = a" "r mod 64 = m"
    by (rule digits)
  obtain x y where f: "a = 64 * x + y" "y < 64" "a div 64 = x" "a mod 64 = y"
    by (rule digits)
  have g: "r div 4096 = x" "r div 64 mod 64 = y"
    using d(3) f(3,4) by (simp_all add: div_4096)
  have c: "\<not> r < 0x80" "\<not> r < 0x800" "\<not> ((0xD800 \<le> r \<and> r \<le> 0xDFFF) \<or> 0x10FFFF < r)"
    using assms by linarith+
  have e: "EncodeRune r = [char_of (0xE0 + x), char_of (0x80 + y), char_of (0x80 + m)]"
    by (simp only: EncodeRune_def c assms(2) if_False if_True g d(4))
  have r: "r = x * 4096 + y * 64 + m" using d(1) f(1) by simp
  have "x < 16" "x = 0 \<longrightarrow> 32 \<le> y" "x = 13 \<longrightarrow> y < 32"
    using assms r d(2) f(2) by auto
  then show thesis using that [OF e r] d(2) f(2) by simp
qed

lemma encode4:
  assumes "0x10000 \<le> r" "r \<le> 0x10FFFF"
  obtains z w y m where
    "EncodeRune r = [char_of (0xF0 + z), char_of (0x80 + w), char_of (0x80 + y),
        char_of (0x80 + m)]"
    "r = z * 262144 + w * 4096 + y * 64 + m" "z \<le> 4" "w < 64" "y < 64" "m < 64"
    "z = 0 \<longrightarrow> 16 \<le> w" "z = 4 \<longrightarrow> w < 16"
proof -
  obtain a m where d: "r = 64 * a + m" "m < 64" "r div 64 = a" "r mod 64 = m"
    by (rule digits)
  obtain x y where f: "a = 64 * x + y" "y < 64" "a div 64 = x" "a mod 64 = y"
    by (rule digits)
  obtain z w where h: "x = 64 * z + w" "w < 64" "x div 64 = z" "x mod 64 = w"
    by (rule digits)
  have g: "r div 262144 = z" "r div 4096 mod 64 = w" "r div 64 mod 64 = y"
    using d(3) f(3,4) h(3,4) by (simp_all add: div_4096 div_262144)
  have c: "\<not> r < 0x80" "\<not> r < 0x800" "\<not> ((0xD800 \<le> r \<and> r \<le> 0xDFFF) \<or> 0x10FFFF < r)"
    "\<not> r < 0x10000"
    using assms by linarith+
  have e: "EncodeRune r = [char_of (0xF0 + z), char_of (0x80 + w), char_of (0x80 + y),
        char_of (0x80 + m)]"
    by (simp only: EncodeRune_def c if_False if_True g d(4))
  have r: "r = z * 262144 + w * 4096 + y * 64 + m" using d(1) f(1) h(1) by simp
  have "z \<le> 4" "z = 0 \<longrightarrow> 16 \<le> w" "z = 4 \<longrightarrow> w < 16"
    using assms r d(2) f(2) h(2) by auto
  then show thesis using that [OF e r] d(2) f(2) h(2) by simp
qed

lemma decode_encode:
  assumes "ValidRune r"
  shows "DecodeRuneInString (EncodeRune r) = (r, length (EncodeRune r))"
proof -
  consider "r < 0x80" | "0x80 \<le> r" "r < 0x800"
    | "0x800 \<le> r" "r < 0x10000" "r < 0xD800 \<or> 0xDFFF < r"
    | "0x10000 \<le> r" "r \<le> 0x10FFFF"
    using assms unfolding ValidRune_def by linarith
  then show ?thesis
  proof cases
    case 1
    then show ?thesis using decode1 [OF 1] by (simp add: encode1)
  next
    case 2
    then obtain q m where e: "EncodeRune r = [char_of (0xC0 + q), char_of (0x80 + m)]"
      and r: "r = q * 64 + m" and b: "2 \<le> q" "q < 32" "m < 64"
      by (rule encode2)
    show ?thesis unfolding e using decode2 [OF b] r by simp
  next
    case 3
    then obtain x y m where
      e: "EncodeRune r = [char_of (0xE0 + x), char_of (0x80 + y), char_of (0x80 + m)]"
      and r: "r = x * 4096 + y * 64 + m"
      and b: "x < 16" "y < 64" "m < 64" "x = 0 \<longrightarrow> 32 \<le> y" "x = 13 \<longrightarrow> y < 32"
      by (rule encode3)
    show ?thesis unfolding e using decode3 [OF b] r by simp
  next
    case 4
    then obtain z w y m where
      e: "EncodeRune r = [char_of (0xF0 + z), char_of (0x80 + w), char_of (0x80 + y),
        char_of (0x80 + m)]"
      and r: "r = z * 262144 + w * 4096 + y * 64 + m"
      and b: "z \<le> 4" "w < 64" "y < 64" "m < 64" "z = 0 \<longrightarrow> 16 \<le> w" "z = 4 \<longrightarrow> w < 16"
      by (rule encode4)
    show ?thesis unfolding e using decode4 [OF b] r by simp
  qed
qed

lemma byte_split:
  obtains n :: nat where "c = char_of n" "n < 256" "of_char c = n"
proof -
  have "(of_char c :: nat) mod 256 = of_char c" by simp
  then have "(of_char c :: nat) < 256" by (metis mod_less_divisor zero_less_numeral)
  then show thesis using that [of "of_char c"] by simp
qed

lemma digits_unique: "m < 64 \<Longrightarrow> (a * 64 + m) div 64 = (a::nat) \<and> (a * 64 + m) mod 64 = m"
  by simp

lemma encode_of_digits2:
  assumes "2 \<le> q" "q < 32" "m < 64"
  shows "EncodeRune (q * 64 + m) = [char_of (0xC0 + q), char_of (0x80 + m)]
    \<and> ValidRune (q * 64 + m)"
proof -
  let ?r = "q * 64 + m"
  have d: "?r div 64 = q" "?r mod 64 = m" using digits_unique [OF assms(3), of q] by simp_all
  have c: "\<not> ?r < 0x80" "?r < 0x800" using assms by linarith+
  have "EncodeRune ?r = [char_of (0xC0 + q), char_of (0x80 + m)]"
    by (simp only: EncodeRune_def c if_False if_True d)
  moreover have "ValidRune ?r" unfolding ValidRune_def using c(2) by linarith
  ultimately show ?thesis by blast
qed

lemma encode_of_digits3:
  assumes "x < 16" "y < 64" "m < 64" "x = 0 \<longrightarrow> 32 \<le> y" "x = 13 \<longrightarrow> y < 32"
  shows "EncodeRune (x * 4096 + y * 64 + m)
      = [char_of (0xE0 + x), char_of (0x80 + y), char_of (0x80 + m)]
    \<and> ValidRune (x * 4096 + y * 64 + m)"
proof -
  let ?r = "x * 4096 + y * 64 + m"
  have e: "?r = (x * 64 + y) * 64 + m" by simp
  have d1: "?r div 64 = x * 64 + y" "?r mod 64 = m"
    unfolding e using digits_unique [OF assms(3), of "x * 64 + y"] by simp_all
  have d2: "(x * 64 + y) div 64 = x" "(x * 64 + y) mod 64 = y"
    using digits_unique [OF assms(2), of x] by simp_all
  have d: "?r div 4096 = x" "?r div 64 mod 64 = y"
    unfolding div_4096 d1 d2 by simp_all
  have c0: "\<not> ?r < 0x80" "\<not> ?r < 0x800" "?r < 0x10000"
    using assms by auto
  consider "x \<le> 12" | "x = 13" | "14 \<le> x" by linarith
  then have "?r < 0xD800 \<or> 0xDFFF < ?r"
    using assms(2,3,5) by cases simp_all
  then have c: "\<not> ?r < 0x80" "\<not> ?r < 0x800" "?r < 0x10000"
    "\<not> ((0xD800 \<le> ?r \<and> ?r \<le> 0xDFFF) \<or> 0x10FFFF < ?r)"
    using c0 by linarith+
  have "EncodeRune ?r = [char_of (0xE0 + x), char_of (0x80 + y), char_of (0x80 + m)]"
    by (simp only: EncodeRune_def c if_False if_True d d1(2))
  moreover have "ValidRune ?r" unfolding ValidRune_def using c(3,4) by linarith
  ultimately show ?thesis by blast
qed

lemma encode_of_digits4:
  assumes "z \<le> 4" "w < 64" "y < 64" "m < 64" "z = 0 \<longrightarrow> 16 \<le> w" "z = 4 \<longrightarrow> w < 16"
  shows "EncodeRune (z * 262144 + w * 4096 + y * 64 + m)
      = [char_of (0xF0 + z), char_of (0x80 + w), char_of (0x80 + y), char_of (0x80 + m)]
    \<and> ValidRune (z * 262144 + w * 4096 + y * 64 + m)"
proof -
  let ?r = "z * 262144 + w * 4096 + y * 64 + m"
  have e: "?r = ((z * 64 + w) * 64 + y) * 64 + m" by simp
  have d1: "?r div 64 = (z * 64 + w) * 64 + y" "?r mod 64 = m"
    unfolding e using digits_unique [OF assms(4), of "(z * 64 + w) * 64 + y"] by simp_all
  have d2: "((z * 64 + w) * 64 + y) div 64 = z * 64 + w" "((z * 64 + w) * 64 + y) mod 64 = y"
    using digits_unique [OF assms(3), of "z * 64 + w"] by simp_all
  have d3: "(z * 64 + w) div 64 = z" "(z * 64 + w) mod 64 = w"
    using digits_unique [OF assms(2), of z] by simp_all
  have d: "?r div 262144 = z" "?r div 4096 mod 64 = w" "?r div 64 mod 64 = y"
    unfolding div_262144 div_4096 d1 d2 d3 by simp_all
  have c: "\<not> ?r < 0x80" "\<not> ?r < 0x800" "\<not> ?r < 0x10000"
    "\<not> ((0xD800 \<le> ?r \<and> ?r \<le> 0xDFFF) \<or> 0x10FFFF < ?r)"
    using assms by auto
  have "EncodeRune ?r
      = [char_of (0xF0 + z), char_of (0x80 + w), char_of (0x80 + y), char_of (0x80 + m)]"
    by (simp only: EncodeRune_def c if_False if_True d d1(2))
  moreover have "ValidRune ?r" unfolding ValidRune_def using c(3,4) by linarith
  ultimately show ?thesis by blast
qed

lemma shape_low:
  assumes "(of_char c0 :: nat) < 0xC2 \<or> 0xF4 < (of_char c0 :: nat)"
  shows "snd (DecodeRuneInString (c0 # s)) = 1"
  using assms by (auto simp: Let_def)

lemma shape_two:
  assumes "0xC2 \<le> (of_char c0 :: nat)" "(of_char c0 :: nat) < 0xE0"
  shows "one_rune (c0 # s)"
proof -
  obtain s0 :: nat where c0: "c0 = char_of s0" "s0 < 256" "of_char c0 = s0" by (rule byte_split)
  have b0: "0xC2 \<le> s0" "s0 < 0xE0" using assms c0(3) by simp_all
  show ?thesis
  proof (cases s)
    case Nil
    then show ?thesis using b0 c0(3) by (simp add: one_rune_def Let_def)
  next
    case (Cons c1 rest)
    obtain s1 :: nat where c1: "c1 = char_of s1" "s1 < 256" "of_char c1 = s1" by (rule byte_split)
    show ?thesis
    proof (cases "0x80 \<le> s1 \<and> s1 \<le> 0xBF")
      case False
      then show ?thesis using b0 c0(3) c1(3) Cons by (auto simp: one_rune_def Let_def)
    next
      case True
      define q where "q = s0 - 0xC0"
      define m where "m = s1 - 0x80"
      have e: "s0 = 0xC0 + q" "s1 = 0x80 + m" and b: "2 \<le> q" "q < 32" "m < 64"
        using b0 True by (auto simp: q_def m_def)
      have d: "c0 # s = char_of (0xC0 + q) # char_of (0x80 + m) # rest"
        using Cons c0(1) c1(1) e by simp
      show ?thesis
        unfolding one_rune_def d using decode2 [OF b] encode_of_digits2 [OF b] by auto
    qed
  qed
qed

lemma shape_three:
  assumes "0xE0 \<le> (of_char c0 :: nat)" "(of_char c0 :: nat) < 0xF0"
  shows "one_rune (c0 # s)"
proof -
  obtain s0 :: nat where c0: "c0 = char_of s0" "s0 < 256" "of_char c0 = s0" by (rule byte_split)
  have b0: "0xE0 \<le> s0" "s0 < 0xF0" using assms c0(3) by simp_all
  consider (short) "length s < 2" | (long) c1 c2 rest where "s = c1 # c2 # rest"
    by (cases s; cases "tl s") auto
  then show ?thesis
  proof cases
    case short
    then show ?thesis using b0 c0(3) by (auto simp: one_rune_def Let_def)
  next
    case long
    obtain s1 :: nat where c1: "c1 = char_of s1" "s1 < 256" "of_char c1 = s1" by (rule byte_split)
    obtain s2 :: nat where c2: "c2 = char_of s2" "s2 < 256" "of_char c2 = s2" by (rule byte_split)
    let ?lo = "if s0 = 0xE0 then 0xA0 else 0x80 :: nat"
    let ?hi = "if s0 = 0xED then 0x9F else 0xBF :: nat"
    show ?thesis
    proof (cases "?lo \<le> s1 \<and> s1 \<le> ?hi \<and> 0x80 \<le> s2 \<and> s2 \<le> 0xBF")
      case False
      then show ?thesis using b0 c0(3) c1(3) c2(3) long
        by (auto simp: one_rune_def Let_def split: if_splits)
    next
      case True
      define x where "x = s0 - 0xE0"
      define y where "y = s1 - 0x80"
      define m where "m = s2 - 0x80"
      have e: "s0 = 0xE0 + x" "s1 = 0x80 + y" "s2 = 0x80 + m"
        using b0 True by (auto simp: x_def y_def m_def split: if_splits)
      have b: "x < 16" "y < 64" "m < 64" "x = 0 \<longrightarrow> 32 \<le> y" "x = 13 \<longrightarrow> y < 32"
        using b0 True by (auto simp: x_def y_def m_def split: if_splits)
      have d: "c0 # s = char_of (0xE0 + x) # char_of (0x80 + y) # char_of (0x80 + m) # rest"
        using long c0(1) c1(1) c2(1) e by simp
      show ?thesis
        unfolding one_rune_def d using decode3 [OF b] encode_of_digits3 [OF b] by auto
    qed
  qed
qed

lemma shape_four:
  assumes "0xF0 \<le> (of_char c0 :: nat)" "(of_char c0 :: nat) \<le> 0xF4"
  shows "one_rune (c0 # s)"
proof -
  obtain s0 :: nat where c0: "c0 = char_of s0" "s0 < 256" "of_char c0 = s0" by (rule byte_split)
  have b0: "0xF0 \<le> s0" "s0 \<le> 0xF4" using assms c0(3) by simp_all
  consider (short) "length s < 3" | (long) c1 c2 c3 rest where "s = c1 # c2 # c3 # rest"
    by (cases s; cases "tl s"; cases "tl (tl s)") auto
  then show ?thesis
  proof cases
    case short
    then show ?thesis using b0 c0(3) by (auto simp: one_rune_def Let_def)
  next
    case long
    obtain s1 :: nat where c1: "c1 = char_of s1" "s1 < 256" "of_char c1 = s1" by (rule byte_split)
    obtain s2 :: nat where c2: "c2 = char_of s2" "s2 < 256" "of_char c2 = s2" by (rule byte_split)
    obtain s3 :: nat where c3: "c3 = char_of s3" "s3 < 256" "of_char c3 = s3" by (rule byte_split)
    let ?lo = "if s0 = 0xF0 then 0x90 else 0x80 :: nat"
    let ?hi = "if s0 = 0xF4 then 0x8F else 0xBF :: nat"
    have n: "(c1 # c2 # c3 # rest) ! 1 = c2" "(c1 # c2 # c3 # rest) ! 2 = c3" by simp_all
    show ?thesis
    proof (cases "?lo \<le> s1 \<and> s1 \<le> ?hi \<and> 0x80 \<le> s2 \<and> s2 \<le> 0xBF
        \<and> 0x80 \<le> s3 \<and> s3 \<le> 0xBF")
      case False
      then show ?thesis using b0 c0(3) c1(3) c2(3) c3(3) long n
        by (auto simp: one_rune_def Let_def split: if_splits)
    next
      case True
      define z where "z = s0 - 0xF0"
      define w where "w = s1 - 0x80"
      define y where "y = s2 - 0x80"
      define m where "m = s3 - 0x80"
      have e: "s0 = 0xF0 + z" "s1 = 0x80 + w" "s2 = 0x80 + y" "s3 = 0x80 + m"
        using b0 True by (auto simp: z_def w_def y_def m_def split: if_splits)
      have b: "z \<le> 4" "w < 64" "y < 64" "m < 64" "z = 0 \<longrightarrow> 16 \<le> w" "z = 4 \<longrightarrow> w < 16"
        using b0 True by (auto simp: z_def w_def y_def m_def split: if_splits)
      have d: "c0 # s = char_of (0xF0 + z) # char_of (0x80 + w) # char_of (0x80 + y)
          # char_of (0x80 + m) # rest"
        using long c0(1) c1(1) c2(1) c3(1) e by simp
      show ?thesis
        unfolding one_rune_def d using decode4 [OF b] encode_of_digits4 [OF b] by auto
    qed
  qed
qed

lemma shape:
  "snd (DecodeRuneInString (c0 # s)) = 1
   \<or> (\<exists>r. ValidRune r \<and> DecodeRuneInString (c0 # s) = (r, length (EncodeRune r))
          \<and> take (length (EncodeRune r)) (c0 # s) = EncodeRune r)"
proof -
  consider "(of_char c0 :: nat) < 0xC2 \<or> 0xF4 < (of_char c0 :: nat)"
    | "0xC2 \<le> (of_char c0 :: nat)" "(of_char c0 :: nat) < 0xE0"
    | "0xE0 \<le> (of_char c0 :: nat)" "(of_char c0 :: nat) < 0xF0"
    | "0xF0 \<le> (of_char c0 :: nat)" "(of_char c0 :: nat) \<le> 0xF4"
    by linarith
  then show ?thesis
  proof cases
    case 1 then show ?thesis using shape_low by blast
  next
    case 2 then show ?thesis using shape_two [of c0 s] by (simp add: one_rune_def)
  next
    case 3 then show ?thesis using shape_three [of c0 s] by (simp add: one_rune_def)
  next
    case 4 then show ?thesis using shape_four [of c0 s] by (simp add: one_rune_def)
  qed
qed

lemma RuneCount_0: "RuneCountInString s = 0 \<longleftrightarrow> s = []"
  by (cases s) (simp_all add: RuneCount_Nil RuneCount_Cons)

lemma single_rune_cases:
  assumes "RuneCountInString d = 1"
  shows "(\<exists>r. ValidRune r \<and> d = EncodeRune r)
    \<or> (\<exists>c. d = [c] \<and> 0x80 \<le> (of_char c :: nat))"
proof (cases d)
  case Nil
  then show ?thesis using assms by (simp add: RuneCount_Nil)
next
  case (Cons c0 s)
  have "RuneCountInString (drop (snd (DecodeRuneInString d)) d) = 0"
    using assms unfolding Cons RuneCount_Cons by simp
  then have l: "length d \<le> snd (DecodeRuneInString d)"
    by (simp add: RuneCount_0)
  from shape [of c0 s] show ?thesis
  proof
    assume "snd (DecodeRuneInString (c0 # s)) = 1"
    then have d: "d = [c0]" using l Cons by simp
    show ?thesis
    proof (cases "(of_char c0 :: nat) < 0x80")
      case True
      then have "ValidRune (of_char c0)" by (simp add: ValidRune_def)
      moreover have "EncodeRune (of_char c0) = [c0]" using True by (simp add: encode1)
      ultimately show ?thesis using d by metis
    next
      case False
      then show ?thesis using d by simp
    qed
  next
    assume "\<exists>r. ValidRune r \<and> DecodeRuneInString (c0 # s) = (r, length (EncodeRune r))
          \<and> take (length (EncodeRune r)) (c0 # s) = EncodeRune r"
    then obtain r where r: "ValidRune r"
      "DecodeRuneInString d = (r, length (EncodeRune r))"
      "take (length (EncodeRune r)) d = EncodeRune r"
      using Cons by auto
    have "d = EncodeRune r" using l r(2,3) by simp
    then show ?thesis using r(1) by blast
  qed
qed

lemma encode_nonempty: "EncodeRune r \<noteq> []"
  by (simp add: EncodeRune_def)

lemma RuneCount_whole:
  assumes "d \<noteq> []" "snd (DecodeRuneInString d) = length d"
  shows "RuneCountInString d = 1"
proof -
  obtain c s where d: "d = c # s" using assms(1) by (cases d) auto
  show ?thesis using assms(2) unfolding d RuneCount_Cons by (simp add: RuneCount_Nil)
qed

lemma RuneCount_encode: "ValidRune r \<Longrightarrow> RuneCountInString (EncodeRune r) = 1"
  using RuneCount_whole [OF encode_nonempty, of r] decode_encode [of r] by simp

lemma decode_bad_byte:
  "0x80 \<le> (of_char c :: nat) \<Longrightarrow> DecodeRuneInString [c] = (RuneError, 1)"
  by (auto simp: Let_def)

lemma rune_count_csv: "RuneCountInString ''csv'' = 3" "RuneCountInString ''tab'' = 3"
  by (simp_all add: RuneCount_Cons RuneCount_Nil)

lemma resolve_encoded:
  assumes "ValidRune r"
  shows "resolve_delimiter (EncodeRune r) = Inr r"
proof -
  have c: "RuneCountInString (EncodeRune r) = 1" using RuneCount_encode [OF assms] .
  then have "EncodeRune r \<noteq> ''csv''" "EncodeRune r \<noteq> ''tab''"
    using rune_count_csv by auto
  then show ?thesis using c decode_encode [OF assms] by (simp add: resolve_delimiter_def)
qed

lemma resolve_bad_byte:
  assumes "0x80 \<le> (of_char c :: nat)"
  shows "resolve_delimiter [c] = Inr RuneError"
proof -
  have "RuneCountInString [c] = 1"
    using RuneCount_whole [of "[c]"] decode_bad_byte [OF assms] by simp
  then show ?thesis using decode_bad_byte [OF assms] by (simp add: resolve_delimiter_def)
qed

section \<open>The loops in closed form\<close>

subsection \<open>The reading loop\<close>

lemma sint_word_of_nat_64:
  assumes "m < 2 ^ 63"
  shows "sint (word_of_nat m :: 64 word) = int m"
proof -
  have "int m < 2 ^ 63" using assms by (metis of_nat_less_iff of_nat_numeral of_nat_power)
  then show ?thesis
    by (simp add: signed_of_nat signed_take_bit_int_eq_self)
qed

lemma sle_word_of_nat_64:
  assumes "m < 2 ^ 63"
  shows "(a \<le>s (word_of_nat m :: 64 word)) \<longleftrightarrow> nat (sint a) \<le> m"
  using sint_word_of_nat_64 [OF assms] by (simp add: word_sle_eq nat_le_iff) 

lemma read_loop_read_all:
  "rd (k + n) = EOF \<Longrightarrow> (\<forall>j<n. rd (k + j) \<noteq> EOF) \<Longrightarrow>
   read_loop rd c nm sep start k st = Some (read_all c nm sep start (map rd [k..<k + n]) st)"
proof (induction n arbitrary: k st)
  case 0
  then show ?case by (subst read_loop.simps) simp
next
  case (Suc n)
  have ne: "rd k \<noteq> EOF" using Suc.prems(2) [rule_format, of 0] by simp
  have e: "rd (Suc k + n) = EOF" using Suc.prems(1) by simp
  have a: "\<forall>j<n. rd (Suc k + j) \<noteq> EOF" using Suc.prems(2) [rule_format, of "Suc _"] by simp
  have l: "[k..<k + Suc n] = k # [Suc k..<Suc k + n]" by (simp add: upt_conv_Cons)
  note IH = Suc.IH [OF e a]
  show ?case
    apply (subst read_loop.simps)
    apply (subst l)
    using ne by (cases "rd k") (simp_all add: IH split: sum.splits)
qed

lemma open_log_cases:
  "open_log c nm st = Inr st' \<Longrightarrow>
     (hasErrors st \<and> st' = st) \<or> (\<not> hasErrors st \<and> c \<and> st' = st\<lparr>hasErrors := True, logFile := Some (nm, [])\<rparr>)"
  by (auto simp: open_log_def split: if_splits)

lemma open_log_ok: "hasErrors st \<or> c \<Longrightarrow> \<exists>st'. open_log c nm st = Inr st'"
  by (auto simp: open_log_def)

lemma read_step_ParseError:
  assumes "read_step c nm sep start (ParseError rec) st = Inr st'" "log_inv nm st"
  shows "errorCount st' = errorCount st + 1
    \<and> log_lines (logFile st') = log_lines (logFile st) @ [''Error reading line: '' @ Join rec sep @ [CHR 0x0A]]
    \<and> logFile st' \<noteq> None \<and> hasErrors st'
    \<and> csvData st' = csvData st \<and> lineNumber st' = lineNumber st
    \<and> notAppendedCount st' = notAppendedCount st \<and> cellWrites st' = cellWrites st \<and> saved st' = saved st"
  using assms
  by (auto simp: Let_def write_log_def log_lines_def log_inv_def dest!: open_log_cases split: sum.splits option.splits)

lemma read_step_Record:
  "read_step c nm sep start (Record rec) st =
     Inr (st\<lparr>csvData := (if start - 1 \<le>s lineNumber st then csvData st @ [sanitize rec] else csvData st),
            lineNumber := lineNumber st + 1\<rparr>)"
  by (simp add: Let_def)

lemma read_step_Record_fields:
  assumes "read_step c nm sep start (Record rec) st = Inr st'"
  shows "errorCount st' = errorCount st \<and> logFile st' = logFile st \<and> hasErrors st' = hasErrors st
    \<and> notAppendedCount st' = notAppendedCount st \<and> cellWrites st' = cellWrites st \<and> saved st' = saved st
    \<and> lineNumber st' = lineNumber st + 1
    \<and> csvData st' = (if start - 1 \<le>s lineNumber st then csvData st @ [sanitize rec] else csvData st)"
  using assms by (auto simp: Let_def)

lemma read_step_ok:
  "hasErrors st \<or> c \<Longrightarrow> \<exists>st'. read_step c nm sep start r st = Inr st'"
  by (cases r) (auto simp: Let_def open_log_def)

lemma read_step_hasErrors:
  "read_step c nm sep start r st = Inr st' \<Longrightarrow> hasErrors st \<Longrightarrow> hasErrors st'"
  by (cases r) (auto simp: Let_def open_log_def write_log_def split: sum.splits if_splits)

lemma read_step_inv:
  "read_step c nm sep start r st = Inr st' \<Longrightarrow> log_inv nm st \<Longrightarrow> log_inv nm st'"
  by (cases r) (auto simp: Let_def open_log_def write_log_def log_inv_def split: sum.splits if_splits option.splits)

lemma read_step_pre:
  "read_step c nm sep start r st = Inr st1 \<Longrightarrow> hasErrors st \<or> c \<or> unparseable (r # rs) = [] \<Longrightarrow>
   hasErrors st1 \<or> c \<or> unparseable rs = []"
  by (cases r) (auto simp: Let_def open_log_def write_log_def split: sum.splits if_splits)

lemma read_step_ok':
  "hasErrors st \<or> c \<or> unparseable (r # rs) = [] \<Longrightarrow> \<exists>st'. read_step c nm sep start r st = Inr st'"
  by (cases r) (auto simp: Let_def open_log_def)

lemma read_all_ok:
  "hasErrors st \<or> c \<or> unparseable rs = [] \<Longrightarrow> \<exists>st'. read_all c nm sep start rs st = Inr st'"
proof (induction rs arbitrary: st)
  case Nil then show ?case by simp
next
  case (Cons r rs)
  obtain st1 where s: "read_step c nm sep start r st = Inr st1"
    using read_step_ok' [OF Cons.prems] by blast
  show ?case using Cons.IH [OF read_step_pre [OF s Cons.prems]] s by simp
qed

lemma read_all_Cons_Inr:
  "read_all c nm sep start (r # rs) st = Inr st' \<Longrightarrow>
   \<exists>st1. read_step c nm sep start r st = Inr st1 \<and> read_all c nm sep start rs st1 = Inr st'"
  by (auto split: sum.splits)

lemma read_all_inv:
  "read_all c nm sep start rs st = Inr st' \<Longrightarrow> log_inv nm st \<Longrightarrow> log_inv nm st'"
proof (induction rs arbitrary: st)
  case Nil then show ?case by simp
next
  case (Cons r rs)
  from Cons.prems(1) obtain st1 where s: "read_step c nm sep start r st = Inr st1"
    and a: "read_all c nm sep start rs st1 = Inr st'"
    using read_all_Cons_Inr by blast
  show ?case using Cons.IH [OF a read_step_inv [OF s Cons.prems(2)]] .
qed

lemma read_all_errors:
  "read_all c nm sep start rs st = Inr st' \<Longrightarrow> log_inv nm st \<Longrightarrow>
   errorCount st' = errorCount st + length (unparseable rs)
   \<and> log_lines (logFile st') = log_lines (logFile st)
        @ map (\<lambda>rec. ''Error reading line: '' @ Join rec sep @ [CHR 0x0A]) (unparseable rs)
   \<and> (logFile st' \<noteq> None) = (logFile st \<noteq> None \<or> unparseable rs \<noteq> [])
   \<and> notAppendedCount st' = notAppendedCount st \<and> cellWrites st' = cellWrites st
   \<and> saved st' = saved st"
proof (induction rs arbitrary: st)
  case Nil then show ?case by simp
next
  case (Cons r rs)
  from Cons.prems(1) obtain st1 where s: "read_step c nm sep start r st = Inr st1"
    and a: "read_all c nm sep start rs st1 = Inr st'"
    using read_all_Cons_Inr by blast
  have i1: "log_inv nm st1" using read_step_inv [OF s Cons.prems(2)] .
  note IH = Cons.IH [OF a i1]
  show ?case
  proof (cases r)
    case (Record rec)
    then show ?thesis using IH read_step_Record_fields [OF s [unfolded Record]] by simp
  next
    case (ParseError rec)
    then show ?thesis using IH read_step_ParseError [OF s [unfolded ParseError] Cons.prems(2)]
      by simp
  next
    case EOF
    then show ?thesis using IH s by simp
  qed
qed

lemma read_all_lineNumber:
  "read_all c nm sep start rs st = Inr st' \<Longrightarrow>
   lineNumber st' = lineNumber st + word_of_nat (length (parsed rs))"
proof (induction rs arbitrary: st)
  case Nil then show ?case by simp
next
  case (Cons r rs)
  from Cons.prems(1) obtain st1 where s: "read_step c nm sep start r st = Inr st1"
    and a: "read_all c nm sep start rs st1 = Inr st'"
    using read_all_Cons_Inr by blast
  show ?case using Cons.IH [OF a] s
    by (cases r) (auto simp: Let_def open_log_def write_log_def split: sum.splits if_splits)
qed

lemma read_all_csvData:
  "read_all c nm sep start rs st = Inr st' \<Longrightarrow> lineNumber st = word_of_nat m \<Longrightarrow>
   m + length (parsed rs) \<le> 2 ^ 63 \<Longrightarrow>
   csvData st' = csvData st @ map sanitize (drop (nat (sint (start - 1)) - m) (parsed rs))"
proof (induction rs arbitrary: st m)
  case Nil then show ?case by simp
next
  case (Cons r rs)
  from Cons.prems(1) obtain st1 where s: "read_step c nm sep start r st = Inr st1"
    and a: "read_all c nm sep start rs st1 = Inr st'"
    using read_all_Cons_Inr by blast
  show ?case
  proof (cases r)
    case (Record rec)
    have m: "m < 2 ^ 63" using Cons.prems(3) Record by simp
    have l1: "lineNumber st1 = word_of_nat (Suc m)"
      using s Record Cons.prems(2) by (auto simp: Let_def)
    have b: "Suc m + length (parsed rs) \<le> 2 ^ 63" using Cons.prems(3) Record by simp
    note IH = Cons.IH [OF a l1 b]
    have d: "csvData st1 = (if nat (sint (start - 1)) \<le> m then csvData st @ [sanitize rec] else csvData st)"
      using s Record Cons.prems(2) sle_word_of_nat_64 [OF m, of "start - 1"] by (auto simp: Let_def)
    show ?thesis
    proof (cases "nat (sint (start - 1)) \<le> m")
      case True
      then show ?thesis using IH d Record by simp
    next
      case False
      then have "nat (sint (start - 1)) - m = Suc (nat (sint (start - 1)) - Suc m)" by simp
      then show ?thesis using IH d Record False by simp
    qed
  next
    case (ParseError rec)
    have "lineNumber st1 = word_of_nat m \<and> csvData st1 = csvData st"
      using s ParseError Cons.prems(2)
      by (auto simp: Let_def open_log_def write_log_def split: sum.splits if_splits)
    then show ?thesis using Cons.IH [OF a, of m] Cons.prems(3) ParseError by simp
  next
    case EOF
    then show ?thesis using Cons.IH [OF a, of m] Cons.prems s by simp
  qed
qed

subsection \<open>The placement loop\<close>


lemma place_row_fits:
  "length row \<le> cap \<Longrightarrow>
   place_row c nm sep cap nxt i row st = Inr (st\<lparr>cellWrites := cellWrites st @ set_cells (nxt + i) 0 row\<rparr>)"
  by (simp add: place_row_def)

lemma place_row_rejected:
  assumes "cap < length row" "place_row c nm sep cap nxt i row st = Inr st'" "log_inv nm st"
  shows "notAppendedCount st' = notAppendedCount st + 1
    \<and> log_lines (logFile st') = log_lines (logFile st)
         @ [''Not appended (too many fields): '' @ Join row sep @ [CHR 0x0A]]
    \<and> logFile st' \<noteq> None \<and> hasErrors st'
    \<and> cellWrites st' = cellWrites st \<and> errorCount st' = errorCount st
    \<and> csvData st' = csvData st \<and> lineNumber st' = lineNumber st \<and> saved st' = saved st"
  using assms
  by (auto simp: place_row_def Let_def write_log_def log_lines_def log_inv_def
      dest!: open_log_cases split: sum.splits option.splits)

lemma place_row_ok:
  "hasErrors st \<or> c \<or> length row \<le> cap \<Longrightarrow> \<exists>st'. place_row c nm sep cap nxt i row st = Inr st'"
  by (auto simp: place_row_def Let_def open_log_def)

lemma place_row_pre:
  "place_row c nm sep cap nxt i row st = Inr st1 \<Longrightarrow>
   hasErrors st \<or> c \<or> oversized cap (row # rows) = [] \<Longrightarrow>
   hasErrors st1 \<or> c \<or> oversized cap rows = []"
  by (auto simp: place_row_def Let_def open_log_def write_log_def oversized_def split: sum.splits if_splits)

lemma place_row_inv:
  "place_row c nm sep cap nxt i row st = Inr st' \<Longrightarrow> log_inv nm st \<Longrightarrow> log_inv nm st'"
  by (auto simp: place_row_def Let_def open_log_def write_log_def log_inv_def
      split: sum.splits if_splits option.splits)

lemma place_loop_Cons_Inr:
  "place_loop c nm sep cap nxt i (row # rows) st = Inr st' \<Longrightarrow>
   \<exists>st1. place_row c nm sep cap nxt i row st = Inr st1
      \<and> place_loop c nm sep cap nxt (i + 1) rows st1 = Inr st'"
  by (auto split: sum.splits)

lemma place_loop_ok:
  "hasErrors st \<or> c \<or> oversized cap rows = [] \<Longrightarrow>
   \<exists>st'. place_loop c nm sep cap nxt i rows st = Inr st'"
proof (induction rows arbitrary: st i)
  case Nil then show ?case by simp
next
  case (Cons row rows)
  have "hasErrors st \<or> c \<or> length row \<le> cap"
    using Cons.prems by (auto simp: oversized_def split: if_splits)
  then obtain st1 where s: "place_row c nm sep cap nxt i row st = Inr st1"
    using place_row_ok by blast
  show ?case using Cons.IH [OF place_row_pre [OF s Cons.prems]] s by simp
qed

lemma place_loop_inv:
  "place_loop c nm sep cap nxt i rows st = Inr st' \<Longrightarrow> log_inv nm st \<Longrightarrow> log_inv nm st'"
proof (induction rows arbitrary: st i)
  case Nil then show ?case by simp
next
  case (Cons row rows)
  from Cons.prems(1) obtain st1 where s: "place_row c nm sep cap nxt i row st = Inr st1"
    and a: "place_loop c nm sep cap nxt (i + 1) rows st1 = Inr st'"
    using place_loop_Cons_Inr by blast
  show ?case using Cons.IH [OF a place_row_inv [OF s Cons.prems(2)]] .
qed


lemma place_loop_rejects:
  "place_loop c nm sep cap nxt i rows st = Inr st' \<Longrightarrow> log_inv nm st \<Longrightarrow>
   notAppendedCount st' = notAppendedCount st + length (oversized cap rows)
   \<and> log_lines (logFile st') = log_lines (logFile st)
        @ map (\<lambda>row. ''Not appended (too many fields): '' @ Join row sep @ [CHR 0x0A])
            (oversized cap rows)
   \<and> (logFile st' \<noteq> None) = (logFile st \<noteq> None \<or> oversized cap rows \<noteq> [])
   \<and> errorCount st' = errorCount st \<and> csvData st' = csvData st \<and> saved st' = saved st"
proof (induction rows arbitrary: st i)
  case Nil then show ?case by (simp add: oversized_def)
next
  case (Cons row rows)
  from Cons.prems(1) obtain st1 where s: "place_row c nm sep cap nxt i row st = Inr st1"
    and a: "place_loop c nm sep cap nxt (i + 1) rows st1 = Inr st'"
    using place_loop_Cons_Inr by blast
  note IH = Cons.IH [OF a place_row_inv [OF s Cons.prems(2)]]
  show ?case
  proof (cases "cap < length row")
    case True
    then show ?thesis using IH place_row_rejected [OF True s Cons.prems(2)]
      by (simp add: oversized_def)
  next
    case False
    then have "st1 = st\<lparr>cellWrites := cellWrites st @ set_cells (nxt + i) 0 row\<rparr>"
      using s by (simp add: place_row_def)
    then show ?thesis using IH False by (simp add: oversized_def)
  qed
qed

lemma place_row_rejected_first:
  "cap < length row \<Longrightarrow> \<not> hasErrors st \<Longrightarrow>
   place_row True nm sep cap nxt i row st
     = Inr (st\<lparr>hasErrors := True,
              logFile := Some (nm, [''Not appended (too many fields): '' @ Join row sep @ [CHR 0x0A]]),
              notAppendedCount := notAppendedCount st + 1\<rparr>)"
  by (simp add: place_row_def open_log_def write_log_def Let_def)

subsection \<open>A run of the reading loop from the initial state\<close>

lemma reader_of_length: "reader_of rs (length rs) = EOF"
  by (simp add: reader_of_def)

lemma reader_of_no_EOF: "EOF \<notin> set rs \<Longrightarrow> \<forall>k<length rs. reader_of rs k \<noteq> EOF"
  by (auto simp: reader_of_def dest: nth_mem)

lemma map_reader_of: "map (reader_of rs) [0..<length rs] = rs"
  by (rule nth_equalityI) (simp_all add: reader_of_def)

lemma read_loop_from_0:
  assumes "rd n = EOF" "\<forall>k<n. rd k \<noteq> EOF"
  shows "read_loop rd c nm sep start 0 st = Some (read_all c nm sep start (map rd [0..<n]) st)"
  using read_loop_read_all [of rd 0 n c nm sep start st] assms by simp

lemma read_loop_reader_of:
  "EOF \<notin> set rs \<Longrightarrow>
   read_loop (reader_of rs) c nm sep start 0 st = Some (read_all c nm sep start rs st)"
  using read_loop_from_0 [OF reader_of_length reader_of_no_EOF, of rs c nm sep start st]
  by (simp add: map_reader_of)

lemma parsed_unparseable_length:
  "EOF \<notin> set rs \<Longrightarrow> length (parsed rs) + length (unparseable rs) = length rs"
proof (induction rs)
  case Nil then show ?case by simp
next
  case (Cons r rs) then show ?case by (cases r) simp_all
qed

lemma length_parsed_le: "length (parsed rs) \<le> length rs"
proof (induction rs)
  case Nil then show ?case by simp
next
  case (Cons r rs) then show ?case by (cases r) simp_all
qed

lemma log_inv_init: "log_inv nm init_state"
  by (simp add: log_inv_def init_state_def)

lemma logFile_eq:
  assumes "log_inv nm st" "log_lines (logFile st) = ws" "(logFile st \<noteq> None) = b"
  shows "logFile st = (if b then Some (nm, ws) else None)"
  using assms by (auto simp: log_inv_def log_lines_def split: option.splits)

lemma read_from_init:
  assumes "rd n = EOF" "\<forall>k<n. rd k \<noteq> EOF" "n < 2 ^ 63"
    and "c \<or> unparseable (map rd [0..<n]) = []"
  shows "\<exists>st'. read_loop rd c nm sep start 0 init_state = Some (Inr st')
    \<and> csvData st' = map sanitize (drop (nat (sint (start - 1))) (parsed (map rd [0..<n])))
    \<and> lineNumber st' = word_of_nat (length (parsed (map rd [0..<n])))
    \<and> errorCount st' = length (unparseable (map rd [0..<n]))
    \<and> logFile st' = (if unparseable (map rd [0..<n]) \<noteq> []
         then Some (nm, map (\<lambda>rec. ''Error reading line: '' @ Join rec sep @ [CHR 0x0A])
                          (unparseable (map rd [0..<n])))
         else None)
    \<and> hasErrors st' = (unparseable (map rd [0..<n]) \<noteq> [])
    \<and> notAppendedCount st' = 0 \<and> cellWrites st' = [] \<and> saved st' = None
    \<and> log_inv nm st'"
proof -
  let ?rs = "map rd [0..<n]"
  have "hasErrors init_state \<or> c \<or> unparseable ?rs = []" using assms(4) by blast
  then obtain st' where a: "read_all c nm sep start ?rs init_state = Inr st'"
    using read_all_ok by blast
  have l: "read_loop rd c nm sep start 0 init_state = Some (Inr st')"
    using read_loop_from_0 [OF assms(1,2)] a by simp
  have i: "log_inv nm st'" using read_all_inv [OF a log_inv_init] .
  have len: "0 + length (parsed ?rs) \<le> 2 ^ 63"
    using length_parsed_le [of ?rs] assms(3) by simp
  have d: "csvData st' = map sanitize (drop (nat (sint (start - 1))) (parsed ?rs))"
    using read_all_csvData [OF a _ len] by (simp add: init_state_def)
  have n: "lineNumber st' = word_of_nat (length (parsed ?rs))"
    using read_all_lineNumber [OF a] by (simp add: init_state_def)
  note e = read_all_errors [OF a log_inv_init]
  have f: "logFile st' = (if unparseable ?rs \<noteq> []
         then Some (nm, map (\<lambda>rec. ''Error reading line: '' @ Join rec sep @ [CHR 0x0A])
                          (unparseable ?rs))
         else None)"
    by (rule logFile_eq [OF i]) (use e in \<open>simp_all add: init_state_def log_lines_def\<close>)
  have h: "hasErrors st' = (unparseable ?rs \<noteq> [])"
    using i f by (auto simp: log_inv_def split: option.splits if_splits)
  show ?thesis using l d n e f h i by (simp add: init_state_def)
qed

lemma sint_minus_1:
  assumes "1 <s (start :: 64 word)"
  shows "nat (sint (start - 1)) = nat (sint start) - 1"
proof -
  have "sint start < 2 ^ 63" using sint_lt [of start] by simp
  moreover have "1 < sint start" using assms by (simp add: word_sless_alt)
  ultimately have "sint (start - 1) = sint start - 1"
    by (simp add: sint_word_ariths signed_take_bit_int_eq_self)
  then show ?thesis by (simp add: nat_diff_distrib)
qed

subsection \<open>The whole run\<close>

lemma main_read:
  assumes "osArgs e \<noteq> 1" "sourceFile fl \<noteq> []" "templateFile fl \<noteq> []" "outputFile fl \<noteq> []"
    "sheetName fl \<noteq> []" "resolve_delimiter (delimiter fl) = Inr d" "openSource e"
    "csvRead e d n = EOF" "\<forall>k<n. csvRead e d k \<noteq> EOF"
  shows "main e fl =
    Some (case read_all (createLog e) (logFileName (outputFile fl)) (EncodeRune d) (startRow fl)
                 (map (csvRead e d) [0..<n]) init_state of
            Inl (err, st) \<Rightarrow> (Fatal err, st)
          | Inr st \<Rightarrow> append_to_sheet e fl (EncodeRune d) st)"
proof -
  have l: "read_loop (csvRead e d) (createLog e) (logFileName (outputFile fl)) (EncodeRune d)
      (startRow fl) 0 init_state
    = Some (read_all (createLog e) (logFileName (outputFile fl)) (EncodeRune d) (startRow fl)
                 (map (csvRead e d) [0..<n]) init_state)"
    using read_loop_from_0 [OF assms(8,9)] .
  show ?thesis
    unfolding main_def using assms(1-7) by (simp add: l split: sum.splits)
qed

lemma main_early:
  "osArgs e = 1 \<Longrightarrow> main e fl = Some (UsageExit, init_state)"
  "osArgs e \<noteq> 1 \<Longrightarrow> sourceFile fl = [] \<or> templateFile fl = [] \<or> outputFile fl = [] \<or> sheetName fl = []
     \<Longrightarrow> main e fl = Some (Fatal MissingFlags, init_state)"
  "osArgs e \<noteq> 1 \<Longrightarrow> \<not> (sourceFile fl = [] \<or> templateFile fl = [] \<or> outputFile fl = [] \<or> sheetName fl = [])
     \<Longrightarrow> resolve_delimiter (delimiter fl) = Inl err \<Longrightarrow> main e fl = Some (Fatal err, init_state)"
  "osArgs e \<noteq> 1 \<Longrightarrow> \<not> (sourceFile fl = [] \<or> templateFile fl = [] \<or> outputFile fl = [] \<or> sheetName fl = [])
     \<Longrightarrow> resolve_delimiter (delimiter fl) = Inr d \<Longrightarrow> \<not> openSource e
     \<Longrightarrow> main e fl = Some (Fatal OpenInputFailed, init_state)"
  unfolding main_def by simp_all

lemma ext_scan_suffix: "\<exists>pre. rev cs @ acc = pre @ ext_scan cs acc"
proof (induction cs arbitrary: acc)
  case Nil then show ?case by simp
next
  case (Cons c cs)
  show ?case
  proof (cases "c = CHR ''/'' \<or> c = CHR ''.''")
    case True then show ?thesis by auto
  next
    case False
    then show ?thesis using Cons.IH [of "c # acc"] by simp
  qed
qed

lemma Ext_suffix: "\<exists>base. path = base @ Ext path"
  using ext_scan_suffix [of "rev path" "[]"] by (simp add: Ext_def)

lemma logFileName_base:
  "path = base @ Ext path \<Longrightarrow> logFileName path = base @ ''-errors.log''"
proof -
  assume p: "path = base @ Ext path"
  have l: "length path = length base + length (Ext path)"
    using arg_cong [OF p, of length] by simp
  have "drop (length base) path = Ext path" "take (length base) path = base"
    using p by (metis append_eq_conv_conj)+
  then show ?thesis by (simp add: logFileName_def TrimSuffix_def l)
qed

lemma sheetExists_iff: "sheetExists names t \<longleftrightarrow> t \<in> set names"
  by (induction names) auto

text \<open>
  The reading loop ends normally only at an end of input, and it ends with a fatal error
  only when the log cannot be created. With a reader that never reports end of input
  (as one whose separator is not valid) and a log that can be created, main does not end.
\<close>

lemma read_loop_Some_EOF:
  assumes "read_loop rd c nm sep start k st = Some y"
  shows "(\<exists>j\<ge>k. rd j = EOF) \<or> (\<exists>e. y = Inl e \<and> \<not> c)"
proof (rule read_loop.raw_induct [where P = "\<lambda>rd c nm sep start k st y.
    (\<exists>j\<ge>k. rd j = EOF) \<or> (\<exists>e. y = Inl e \<and> \<not> c)", OF _ assms])
  fix f :: "(nat \<Rightarrow> read_result) \<Rightarrow> bool \<Rightarrow> string \<Rightarrow> string \<Rightarrow> 64 word \<Rightarrow> nat \<Rightarrow> run_state
     \<Rightarrow> ((fatal \<times> run_state) + run_state) option"
  fix rd c nm sep start k st y
  assume IH: "\<And>rd c nm sep start k st y. f rd c nm sep start k st = Some y \<Longrightarrow>
    (\<exists>j\<ge>k. rd j = EOF) \<or> (\<exists>e. y = Inl e \<and> \<not> c)"
  assume eq: "(case rd k of
      Record record \<Rightarrow>
        (case read_step c nm sep start (Record record) st of
          Inl e \<Rightarrow> Some (Inl e)
        | Inr st' \<Rightarrow> f rd c nm sep start (Suc k) st')
      | ParseError record \<Rightarrow>
          (case read_step c nm sep start (ParseError record) st of
            Inl e \<Rightarrow> Some (Inl e)
          | Inr st' \<Rightarrow> f rd c nm sep start (Suc k) st')
      | EOF \<Rightarrow> Some (Inr st)) = Some y"
  have step: "(\<exists>j\<ge>k. rd j = EOF) \<or> (\<exists>e. y = Inl e \<and> \<not> c)"
    if "f rd c nm sep start (Suc k) st' = Some y" for st'
    using IH [OF that] by (metis Suc_leD)
  show "(\<exists>j\<ge>k. rd j = EOF) \<or> (\<exists>e. y = Inl e \<and> \<not> c)"
  proof (cases "rd k")
    case EOF
    then have "k \<le> k \<and> rd k = EOF" by simp
    then show ?thesis by blast
  next
    case (Record rec)
    have "f rd c nm sep start (Suc k)
        (st\<lparr>csvData := (if start - 1 \<le>s lineNumber st then csvData st @ [sanitize rec]
                          else csvData st),
            lineNumber := lineNumber st + 1\<rparr>) = Some y"
      using eq unfolding Record read_result.case read_step_Record by simp
    then show ?thesis by (rule step)
  next
    case (ParseError rec)
    show ?thesis
    proof (cases "read_step c nm sep start (ParseError rec) st")
      case (Inl e)
      have "\<not> c" using Inl read_step_ok [of st c nm sep start "ParseError rec"] by auto
      moreover have "y = Inl e" using eq unfolding ParseError read_result.case Inl by simp
      ultimately show ?thesis by blast
    next
      case (Inr st')
      have "f rd c nm sep start (Suc k) st' = Some y"
        using eq unfolding ParseError read_result.case Inr by simp
      then show ?thesis by (rule step)
    qed
  qed
qed

lemma main_diverges:
  assumes "osArgs e \<noteq> 1" "sourceFile fl \<noteq> []" "templateFile fl \<noteq> []" "outputFile fl \<noteq> []"
    "sheetName fl \<noteq> []" "resolve_delimiter (delimiter fl) = Inr d" "openSource e"
    "createLog e" "\<forall>k. csvRead e d k \<noteq> EOF"
  shows "main e fl = None"
proof -
  let ?l = "read_loop (csvRead e d) (createLog e) (logFileName (outputFile fl)) (EncodeRune d)
      (startRow fl) 0 init_state"
  have "?l = None"
  proof (cases ?l)
    case None then show ?thesis .
  next
    case (Some y)
    from read_loop_Some_EOF [OF Some] assms(8,9) show ?thesis by blast
  qed
  then show ?thesis using assms(1-7) by (simp add: main_def)
qed

lemma read_all_init:
  assumes "c \<or> unparseable rs = []"
  shows "\<exists>st'. read_all c nm sep start rs init_state = Inr st'
    \<and> errorCount st' = length (unparseable rs)
    \<and> logFile st' = (if unparseable rs \<noteq> []
         then Some (nm, map (\<lambda>rec. ''Error reading line: '' @ Join rec sep @ [CHR 0x0A])
                          (unparseable rs))
         else None)
    \<and> notAppendedCount st' = 0 \<and> cellWrites st' = [] \<and> saved st' = None"
proof -
  have "hasErrors init_state \<or> c \<or> unparseable rs = []" using assms by blast
  from read_all_ok [OF this, where nm = nm and sep = sep and start = start]
  obtain st' where a: "read_all c nm sep start rs init_state = Inr st'" by auto
  have i: "log_inv nm st'" using read_all_inv [OF a log_inv_init] .
  note e = read_all_errors [OF a log_inv_init]
  have f: "logFile st' = (if unparseable rs \<noteq> []
         then Some (nm, map (\<lambda>rec. ''Error reading line: '' @ Join rec sep @ [CHR 0x0A])
                          (unparseable rs))
         else None)"
    by (rule logFile_eq [OF i]) (use e in \<open>simp_all add: init_state_def log_lines_def\<close>)
  show ?thesis using a e f by (simp add: init_state_def)
qed


text \<open>The log at the end of a run that has read its source, from the run's inputs.\<close>

lemma append_to_sheet_not_placing:
  "placing_rows e fl = None \<Longrightarrow> \<exists>out. append_to_sheet e fl sep st = (out, st)"
  by (auto simp: placing_rows_def append_to_sheet_def sheetExists_iff split: if_splits)

lemma append_to_sheet_placing:
  assumes "placing_rows e fl = Some rows"
    and "place_loop (createLog e) (logFileName (outputFile fl)) sep (maxCols rows) (nextRow rows)
           0 (csvData st) st = Inr st'"
  shows "\<exists>out st''. append_to_sheet e fl sep st = (out, st'')
    \<and> logFile st'' = logFile st' \<and> errorCount st'' = errorCount st'
    \<and> notAppendedCount st'' = notAppendedCount st'"
  using assms
  by (auto simp: placing_rows_def append_to_sheet_def sheetExists_iff split: if_splits)

lemma run_log:
  assumes c: "createLog e"
    and r: "read_all (createLog e) (logFileName (outputFile fl)) sep (startRow fl) rs init_state
          = Inr st1"
    and d: "csvData st1 = accepted (startRow fl) rs"
  shows "\<exists>out st. append_to_sheet e fl sep st1 = (out, st)
    \<and> logFile st = (if failures e fl sep rs \<noteq> []
                    then Some (logFileName (outputFile fl), failures e fl sep rs) else None)
    \<and> errorCount st + notAppendedCount st = length (failures e fl sep rs)"
proof -
  let ?nm = "logFileName (outputFile fl)"
  let ?errs = "map (\<lambda>rec. ''Error reading line: '' @ Join rec sep @ [CHR 0x0A]) (unparseable rs)"
  have i1: "log_inv ?nm st1" using read_all_inv [OF r log_inv_init] .
  note e1 = read_all_errors [OF r log_inv_init]
  have l1: "log_lines (logFile st1) = ?errs" "(logFile st1 \<noteq> None) = (?errs \<noteq> [])"
    "errorCount st1 = length ?errs" "notAppendedCount st1 = 0"
    using e1 by (simp_all add: init_state_def log_lines_def)
  show ?thesis
  proof (cases "placing_rows e fl")
    case None
    obtain out where a: "append_to_sheet e fl sep st1 = (out, st1)"
      using append_to_sheet_not_placing [OF None] by blast
    have f: "failures e fl sep rs = ?errs" using None by (simp add: failures_def)
    have "logFile st1 = (if ?errs \<noteq> [] then Some (?nm, ?errs) else None)"
      by (rule logFile_eq [OF i1 l1(1) l1(2)])
    then show ?thesis using a l1(3,4) unfolding f by simp
  next
    case (Some rows)
    let ?rejs = "map (\<lambda>row. ''Not appended (too many fields): '' @ Join row sep @ [CHR 0x0A])
              (oversized (maxCols rows) (accepted (startRow fl) rs))"
    have "hasErrors st1 \<or> createLog e \<or> oversized (maxCols rows) (csvData st1) = []"
      using c by simp
    from place_loop_ok [OF this, where nm = ?nm and sep = sep and nxt = "nextRow rows" and i = 0]
    obtain st2 where p: "place_loop (createLog e) ?nm sep (maxCols rows) (nextRow rows) 0
        (csvData st1) st1 = Inr st2" by auto
    have i2: "log_inv ?nm st2" using place_loop_inv [OF p i1] .
    note e2 = place_loop_rejects [OF p i1]
    have f: "failures e fl sep rs = ?errs @ ?rejs" using Some by (simp add: failures_def)
    have l2: "log_lines (logFile st2) = ?errs @ ?rejs"
      "(logFile st2 \<noteq> None) = (?errs @ ?rejs \<noteq> [])"
      "errorCount st2 + notAppendedCount st2 = length (?errs @ ?rejs)"
      using e2 l1 d by simp_all
    have g: "logFile st2 = (if ?errs @ ?rejs \<noteq> [] then Some (?nm, ?errs @ ?rejs) else None)"
      by (rule logFile_eq [OF i2 l2(1) l2(2)])
    obtain out st where a: "append_to_sheet e fl sep st1 = (out, st)"
      and s: "logFile st = logFile st2" "errorCount st = errorCount st2"
        "notAppendedCount st = notAppendedCount st2"
      using append_to_sheet_placing [OF Some p] by blast
    show ?thesis using a s g l2(3) unfolding f by simp
  qed
qed

section \<open>Properties\<close>

subsection \<open>The delimiter\<close>

text \<open>
  What the delimiter switch does with every token. The token \<open>csv\<close> resolves to the
  comma and the token \<open>tab\<close> to the horizontal tab. Any token that is the UTF-8
  encoding of one code point resolves to that code point, so the separator is the token
  itself, also beyond ASCII. A token that is one single byte from \<open>0x80\<close> up, which
  encodes no code point, counts as one rune too and resolves to U+FFFD without an error.
  Every other token fails fatally with the error that names the token.
\<close>

theorem resolve_delimiter_cases:
  "resolve_delimiter ''csv'' = Inr 0x2C
   \<and> resolve_delimiter ''tab'' = Inr 0x09
   \<and> (ValidRune r \<longrightarrow> resolve_delimiter (EncodeRune r) = Inr r)
   \<and> (0x80 \<le> (of_char c :: nat) \<longrightarrow> resolve_delimiter [c] = Inr RuneError)
   \<and> (d \<noteq> ''csv'' \<and> d \<noteq> ''tab'' \<and> (\<forall>r. ValidRune r \<longrightarrow> d \<noteq> EncodeRune r)
        \<and> (\<forall>b. 0x80 \<le> (of_char b :: nat) \<longrightarrow> d \<noteq> [b])
      \<longrightarrow> resolve_delimiter d = Inl (InvalidDelimiter d))"
proof -
  have k: "resolve_delimiter ''csv'' = Inr 0x2C" "resolve_delimiter ''tab'' = Inr 0x09"
    by (simp_all add: resolve_delimiter_def)
  have o: "resolve_delimiter d = Inl (InvalidDelimiter d)"
    if "d \<noteq> ''csv''" "d \<noteq> ''tab''" "\<forall>r. ValidRune r \<longrightarrow> d \<noteq> EncodeRune r"
      "\<forall>b. 0x80 \<le> (of_char b :: nat) \<longrightarrow> d \<noteq> [b]"
  proof -
    have "RuneCountInString d \<noteq> 1" using single_rune_cases [of d] that(3,4) by blast
    then show ?thesis using that(1,2) by (simp add: resolve_delimiter_def)
  qed
  show ?thesis using k o resolve_encoded resolve_bad_byte by blast
qed

theorem resolve_delimiter_cases_witness:
  "resolve_delimiter ''csv'' = Inr 0x2C
   \<and> resolve_delimiter ''tab'' = Inr 0x09
   \<and> resolve_delimiter (EncodeRune 0xE9) = Inr 0xE9
   \<and> EncodeRune 0xE9 = [CHR 0xC3, CHR 0xA9]
   \<and> resolve_delimiter [CHR 0xFF] = Inr RuneError
   \<and> resolve_delimiter ''ab'' = Inl (InvalidDelimiter ''ab'')"
proof -
  have v: "ValidRune 0xE9" by (simp add: ValidRune_def)
  have b: "0x80 \<le> (of_char (CHR 0xFF) :: nat)" by simp
  have n: "RuneCountInString ''ab'' = 2" by (simp add: RuneCount_Cons RuneCount_Nil)
  have a1: "\<forall>r. ValidRune r \<longrightarrow> ''ab'' \<noteq> EncodeRune r"
    using RuneCount_encode n by fastforce
  have a2: "\<forall>b. 0x80 \<le> (of_char b :: nat) \<longrightarrow> ''ab'' \<noteq> [b]" by simp
  have e: "EncodeRune 0xE9 = [CHR 0xC3, CHR 0xA9]"
    by (simp add: EncodeRune_def char_of_eq_iff)
  show ?thesis
    using resolve_delimiter_cases [of "0xE9" "CHR 0xFF" "''ab''"] v b a1 a2 e by simp
qed

text \<open>
  C9. Delimiter resolution maps \<open>csv\<close> to the comma, \<open>tab\<close> to the horizontal tab
  and a token of exactly one code point to that code point, and it is to fail fatally,
  naming the token, for every other token. The flag's description says the same: the
  options are \<open>csv\<close>, \<open>tab\<close> or any single character. The code does so except for a
  token that is one ill-formed byte. The one-byte token \<open>0xFF\<close> is not \<open>csv\<close>, not
  \<open>tab\<close> and not the encoding of a code point (no encoding contains that byte), yet
  it is accepted: it resolves to U+FFFD, whose encoding is three other bytes, and there
  is no fatal error.
\<close>

theorem resolve_delimiter_ill_formed_byte:
  "resolve_delimiter [CHR 0xFF] = Inr 0xFFFD
   \<and> resolve_delimiter [CHR 0xFF] \<noteq> Inl (InvalidDelimiter [CHR 0xFF])
   \<and> EncodeRune 0xFFFD \<noteq> [CHR 0xFF]"
  using resolve_bad_byte [of "CHR 0xFF"] by (simp add: RuneError_def EncodeRune_def)

subsection \<open>Placement and sheet geometry\<close>



text \<open>
  C2. For a record with \<open>F\<close> fields and capacity \<open>cap\<close>, with the log open or
  creatable: the body of the placement loop ends normally and the loop goes on with the
  next record and runs to its end; the rejected count grows by one exactly when
  \<open>F > cap\<close>, and then exactly one entry
  \<open>Not appended (too many fields): <fields joined with the separator>\<close> is written to
  the log and no cell is written; otherwise the log is unchanged and the cells of the
  record are written.
\<close>

theorem rejection_of_wide_record:
  assumes "hasErrors st \<or> c" "log_inv nm st"
  shows "\<exists>st'. place_row c nm sep cap nxt i row st = Inr st'
    \<and> place_loop c nm sep cap nxt i (row # rest) st = place_loop c nm sep cap nxt (i + 1) rest st'
    \<and> notAppendedCount st' = notAppendedCount st + (if cap < length row then 1 else 0)
    \<and> log_lines (logFile st') = log_lines (logFile st)
         @ (if cap < length row
            then [''Not appended (too many fields): '' @ Join row sep @ [CHR 0x0A]] else [])
    \<and> (if cap < length row then cellWrites st' = cellWrites st
        else cellWrites st' = cellWrites st @ set_cells (nxt + i) 0 row)
    \<and> (\<exists>st''. place_loop c nm sep cap nxt (i + 1) rest st' = Inr st'')"
proof -
  obtain st' where p: "place_row c nm sep cap nxt i row st = Inr st'"
    using place_row_ok [of st c row cap] assms(1) by blast
  have h: "hasErrors st' \<or> c \<or> oversized cap rest = []"
    using p assms(1) by (auto simp: place_row_def Let_def open_log_def write_log_def split: sum.splits if_splits)
  have r: "\<exists>st''. place_loop c nm sep cap nxt (i + 1) rest st' = Inr st''"
    using place_loop_ok [OF h] .
  show ?thesis
  proof (cases "cap < length row")
    case True
    show ?thesis using place_row_rejected [OF True p assms(2)] p r True by simp
  next
    case False
    then have "st' = st\<lparr>cellWrites := cellWrites st @ set_cells (nxt + i) 0 row\<rparr>"
      using p by (simp add: place_row_def)
    then show ?thesis using p r False by simp
  qed
qed

theorem rejection_of_wide_record_witness:
  "\<exists>st'. place_row True ''o-errors.log'' '','' 2 4 0 [''1'', ''2'', ''3''] init_state = Inr st'
    \<and> place_loop True ''o-errors.log'' '','' 2 4 0 [[''1'', ''2'', ''3''], [''x'', ''y'']] init_state
        = place_loop True ''o-errors.log'' '','' 2 4 1 [[''x'', ''y'']] st'
    \<and> notAppendedCount st' = 1
    \<and> log_lines (logFile st') = [''Not appended (too many fields): 1,2,3'' @ [CHR 0x0A]]
    \<and> cellWrites st' = []
    \<and> (\<exists>st''. place_loop True ''o-errors.log'' '','' 2 4 1 [[''x'', ''y'']] st' = Inr st'')"
  using rejection_of_wide_record [of init_state True "''o-errors.log''" "'',''" 2 4 0 "[''1'', ''2'', ''3'']" "[[''x'', ''y'']]"]
  by (simp add: init_state_def log_inv_def log_lines_def)

text \<open>
  C3. The capacity is the number of fields of the first row of the sheet when the sheet
  has a row, and 16384 when it has none; the next row is the number of rows plus 1. On
  an empty sheet a record of at most 16384 fields is not rejected. (A record of more
  than 16384 fields is rejected on an empty sheet: the capacity is Excel's maximum, not
  unbounded.)
\<close>

theorem sheet_geometry:
  "(rows \<noteq> [] \<longrightarrow> maxCols rows = length (hd rows))
   \<and> (rows = [] \<longrightarrow> maxCols rows = 16384)
   \<and> nextRow rows = length rows + 1
   \<and> (rows = [] \<and> length row \<le> 16384 \<longrightarrow>
        place_row c nm sep (maxCols rows) (nextRow rows) i row st
          = Inr (st\<lparr>cellWrites := cellWrites st @ set_cells (nextRow rows + i) 0 row\<rparr>))"
  by (auto simp: maxCols_def nextRow_def place_row_def hd_conv_nth)

theorem sheet_geometry_witness:
  "maxCols [[''h1'', ''h2''], [''a'', ''b'', ''c'']] = 2
   \<and> nextRow [[''h1'', ''h2''], [''a'', ''b'', ''c'']] = 3
   \<and> maxCols [] = 16384 \<and> nextRow [] = 1
   \<and> place_row False ''o-errors.log'' '','' (maxCols []) (nextRow []) 0 [''1'', ''2'', ''3''] init_state
       = Inr (init_state\<lparr>cellWrites := [(1, 1, ''1''), (2, 1, ''2''), (3, 1, ''3'')]\<rparr>)"
  using sheet_geometry [of "[[''h1'', ''h2''], [''a'', ''b'', ''c'']]" "[]" False "''o-errors.log''" "'',''" 0 init_state]
    sheet_geometry [of "[]" "[''1'', ''2'', ''3'']" False "''o-errors.log''" "'',''" 0 init_state]
  by (simp add: init_state_def maxCols_def nextRow_def numeral_2_eq_2 numeral_3_eq_3)

text \<open>
  On an empty sheet a record of 16385 fields is rejected for its width: it is logged,
  counted and not written.
\<close>

theorem empty_sheet_rejects_counterexample:
  "place_row True ''o-errors.log'' '','' (maxCols []) (nextRow []) 0 (replicate 16385 '''') init_state
     = Inr (init_state\<lparr>hasErrors := True,
              logFile := Some (''o-errors.log'',
                 [''Not appended (too many fields): '' @ Join (replicate 16385 '''') '','' @ [CHR 0x0A]]),
              notAppendedCount := 1\<rparr>)"
proof -
  have "maxCols [] < length (replicate 16385 (''''::string))" by (simp add: maxCols_def)
  moreover have "\<not> hasErrors init_state" by (simp add: init_state_def)
  ultimately show ?thesis
    using place_row_rejected_first [of "maxCols []" "replicate 16385 ''''" init_state]
    by (simp add: init_state_def)
qed

text \<open>
  C4. When the reader returns \<open>n\<close> results before end of input, the reading loop ends,
  and the accepted records, the unparseable lines and the lines skipped before the start
  offset add up to \<open>n\<close>; the skipped lines are the first \<open>*startRow - 1\<close> parsed
  lines (all of them when there are fewer). For start offsets 0 and 1 nothing is skipped
  and the accepted records and the unparseable lines add up to \<open>n\<close>. (For a larger
  start offset they do not: the skipped lines are in neither count.)
\<close>

theorem every_line_accounted_for:
  assumes "rd n = EOF" "\<forall>k<n. rd k \<noteq> EOF" "n < 2 ^ 63"
    and "c \<or> unparseable (map rd [0..<n]) = []"
  shows "\<exists>st'. read_loop rd c nm sep start 0 init_state = Some (Inr st')
    \<and> length (csvData st') + errorCount st'
        + min (nat (sint (start - 1))) (length (parsed (map rd [0..<n]))) = n
    \<and> (start = 0 \<or> start = 1 \<longrightarrow> length (csvData st') + errorCount st' = n)"
proof -
  let ?rs = "map rd [0..<n]"
  obtain st' where l: "read_loop rd c nm sep start 0 init_state = Some (Inr st')"
    and d: "csvData st' = map sanitize (drop (nat (sint (start - 1))) (parsed ?rs))"
    and e: "errorCount st' = length (unparseable ?rs)"
    using read_from_init [OF assms] by blast
  have "EOF \<notin> set ?rs" using assms(2) by auto
  then have t: "length (parsed ?rs) + length (unparseable ?rs) = n"
    using parsed_unparseable_length [of ?rs] by simp
  have s: "start = 0 \<or> start = 1 \<Longrightarrow> nat (sint (start - 1)) = 0" by auto
  have "length (csvData st') + errorCount st'
        + min (nat (sint (start - 1))) (length (parsed ?rs)) = n"
    using d e t by simp
  moreover have "start = 0 \<or> start = 1 \<Longrightarrow> length (csvData st') + errorCount st' = n"
    using d e t s by simp
  ultimately show ?thesis using l by blast
qed

theorem every_line_accounted_for_witness:
  "\<exists>st'. read_loop (reader_of [Record [''h''], ParseError [''x''], Record [''a'']]) True
            ''o-errors.log'' '','' 1 0 init_state = Some (Inr st')
     \<and> length (csvData st') + errorCount st' = 3"
proof -
  let ?rs = "[Record [''h''], ParseError [''x''], Record [''a'']]"
  have e: "reader_of ?rs (length ?rs) = EOF" by (rule reader_of_length)
  have a: "\<forall>k<length ?rs. reader_of ?rs k \<noteq> EOF" by (rule reader_of_no_EOF) simp
  have b: "length ?rs < 2 ^ 63" by simp
  have c: "True \<or> unparseable (map (reader_of ?rs) [0..<length ?rs]) = []" by simp
  from every_line_accounted_for [OF e a b c, of "''o-errors.log''" "'',''" 1]
  show ?thesis by auto
qed

text \<open>
  Two lines, start offset 2: one record is accepted and no line is unparseable.
\<close>

theorem skipped_lines_unaccounted_counterexample:
  "read_loop (reader_of [Record [''h''], Record [''a'']]) True ''o-errors.log'' '','' 2 0 init_state
     = Some (Inr (init_state\<lparr>csvData := [[''a'']], lineNumber := 2\<rparr>))
   \<and> length (csvData (init_state\<lparr>csvData := [[''a'']], lineNumber := 2\<rparr>))
       + errorCount (init_state\<lparr>csvData := [[''a'']], lineNumber := 2\<rparr>)
     \<noteq> length [Record [''h''], Record [''a'']]"
  by (simp add: read_loop_reader_of init_state_def Let_def sanitize_def strip_quotes_def word_sle_eq)

text \<open>
  C5. Start offsets 0 and 1 both accept every successfully parsed line, in order and
  sanitized; a start offset \<open>N > 1\<close> accepts the same sequence without its first
  \<open>N - 1\<close> records. The error count and the log do not depend on the start offset:
  they hold the unparseable lines and nothing else, so a skipped line is neither logged
  nor counted. (An unparseable line is never accepted, and it is logged and counted also
  when it stands before the start offset.)
\<close>

theorem start_offset_selects_parsed_lines:
  assumes "rd n = EOF" "\<forall>k<n. rd k \<noteq> EOF" "n < 2 ^ 63"
    and "c \<or> unparseable (map rd [0..<n]) = []"
  shows "\<exists>st0 st1 stN.
      read_loop rd c nm sep 0 0 init_state = Some (Inr st0)
    \<and> read_loop rd c nm sep 1 0 init_state = Some (Inr st1)
    \<and> read_loop rd c nm sep start 0 init_state = Some (Inr stN)
    \<and> csvData st0 = map sanitize (parsed (map rd [0..<n]))
    \<and> csvData st1 = map sanitize (parsed (map rd [0..<n]))
    \<and> (1 <s start \<longrightarrow> csvData stN = drop (nat (sint start) - 1) (csvData st1))
    \<and> errorCount stN = length (unparseable (map rd [0..<n]))
    \<and> errorCount stN = errorCount st1
    \<and> logFile stN = logFile st1
    \<and> log_lines (logFile stN)
        = map (\<lambda>rec. ''Error reading line: '' @ Join rec sep @ [CHR 0x0A])
            (unparseable (map rd [0..<n]))"
proof -
  let ?rs = "map rd [0..<n]"
  obtain st0 where l0: "read_loop rd c nm sep 0 0 init_state = Some (Inr st0)"
    and d0: "csvData st0 = map sanitize (drop (nat (sint (0 - 1 :: 64 word))) (parsed ?rs))"
    using read_from_init [OF assms, of nm sep 0] by blast
  obtain st1 where l1: "read_loop rd c nm sep 1 0 init_state = Some (Inr st1)"
    and d1: "csvData st1 = map sanitize (drop (nat (sint (1 - 1 :: 64 word))) (parsed ?rs))"
    and e1: "errorCount st1 = length (unparseable ?rs)"
    and f1: "logFile st1 = (if unparseable ?rs \<noteq> []
         then Some (nm, map (\<lambda>rec. ''Error reading line: '' @ Join rec sep @ [CHR 0x0A])
                          (unparseable ?rs))
         else None)"
    using read_from_init [OF assms, of nm sep 1] by blast
  obtain stN where lN: "read_loop rd c nm sep start 0 init_state = Some (Inr stN)"
    and dN: "csvData stN = map sanitize (drop (nat (sint (start - 1))) (parsed ?rs))"
    and eN: "errorCount stN = length (unparseable ?rs)"
    and fN: "logFile stN = (if unparseable ?rs \<noteq> []
         then Some (nm, map (\<lambda>rec. ''Error reading line: '' @ Join rec sep @ [CHR 0x0A])
                          (unparseable ?rs))
         else None)"
    using read_from_init [OF assms, of nm sep start] by blast
  have g: "1 <s start \<Longrightarrow> csvData stN = drop (nat (sint start) - 1) (csvData st1)"
    using dN d1 by (simp add: sint_minus_1 drop_map)
  have ll: "log_lines (logFile stN)
        = map (\<lambda>rec. ''Error reading line: '' @ Join rec sep @ [CHR 0x0A]) (unparseable ?rs)"
    using fN by (simp add: log_lines_def)
  show ?thesis using l0 l1 lN d0 d1 g e1 eN f1 fN ll by simp
qed

theorem start_offset_selects_parsed_lines_witness:
  "\<exists>st0 st1 stN.
      read_loop (reader_of [Record [''h''], ParseError [''x''], Record [''a'']]) True
         ''o-errors.log'' '','' 0 0 init_state = Some (Inr st0)
    \<and> read_loop (reader_of [Record [''h''], ParseError [''x''], Record [''a'']]) True
         ''o-errors.log'' '','' 1 0 init_state = Some (Inr st1)
    \<and> read_loop (reader_of [Record [''h''], ParseError [''x''], Record [''a'']]) True
         ''o-errors.log'' '','' 2 0 init_state = Some (Inr stN)
    \<and> csvData st0 = [[''h''], [''a'']] \<and> csvData st1 = [[''h''], [''a'']]
    \<and> csvData stN = [[''a'']]
    \<and> errorCount stN = 1 \<and> errorCount st1 = 1 \<and> logFile stN = logFile st1
    \<and> log_lines (logFile stN) = [''Error reading line: x'' @ [CHR 0x0A]]"
proof -
  let ?rs = "[Record [''h''], ParseError [''x''], Record [''a'']]"
  have e: "reader_of ?rs (length ?rs) = EOF" by (rule reader_of_length)
  have a: "\<forall>k<length ?rs. reader_of ?rs k \<noteq> EOF" by (rule reader_of_no_EOF) simp
  have b: "length ?rs < 2 ^ 63" by simp
  have c: "True \<or> unparseable (map (reader_of ?rs) [0..<length ?rs]) = []" by simp
  have s: "(1::64 word) <s 2" by (simp add: word_sless_alt)
  from start_offset_selects_parsed_lines [OF e a b c, of "''o-errors.log''" "'',''" 2,
      unfolded map_reader_of] s
  show ?thesis by (auto simp: sanitize_def strip_quotes_def)
qed

text \<open>
  Start offset 2 and an unparseable first line: that line is logged and counted, and the
  second line, the first that parses, is the one left out.
\<close>

theorem unparseable_line_before_start_counterexample:
  "read_loop (reader_of [ParseError [''x''], Record [''a'']]) True ''o-errors.log'' '','' 2 0 init_state
     = Some (Inr (init_state\<lparr>hasErrors := True,
          logFile := Some (''o-errors.log'', [''Error reading line: x'' @ [CHR 0x0A]]),
          errorCount := 1, lineNumber := 1\<rparr>))"
  by (simp add: read_loop_reader_of init_state_def Let_def open_log_def write_log_def word_sle_eq)

text \<open>
  C6. The line index is the number of successfully parsed lines: an unparseable line
  does not advance it. So for a start offset \<open>N > 1\<close> the accepted records are the
  parsed lines without the first \<open>N - 1\<close> of them, wherever the unparseable lines
  stand in the source.
\<close>

theorem line_index_counts_parsed_lines:
  assumes "rd n = EOF" "\<forall>k<n. rd k \<noteq> EOF" "n < 2 ^ 63"
    and "c \<or> unparseable (map rd [0..<n]) = []"
    and "1 <s start"
  shows "\<exists>st'. read_loop rd c nm sep start 0 init_state = Some (Inr st')
    \<and> lineNumber st' = word_of_nat (length (parsed (map rd [0..<n])))
    \<and> csvData st' = map sanitize (drop (nat (sint start) - 1) (parsed (map rd [0..<n])))"
proof -
  obtain st' where l: "read_loop rd c nm sep start 0 init_state = Some (Inr st')"
    and d: "csvData st' = map sanitize (drop (nat (sint (start - 1))) (parsed (map rd [0..<n])))"
    and n: "lineNumber st' = word_of_nat (length (parsed (map rd [0..<n])))"
    using read_from_init [OF assms(1-4)] by blast
  show ?thesis using l d n sint_minus_1 [OF assms(5)] by simp
qed

theorem line_index_counts_parsed_lines_witness:
  "\<exists>st'. read_loop (reader_of [ParseError [''x''], Record [''h''], Record [''a'']]) True
            ''o-errors.log'' '','' 2 0 init_state = Some (Inr st')
     \<and> lineNumber st' = 2 \<and> csvData st' = [[''a'']]"
proof -
  let ?rs = "[ParseError [''x''], Record [''h''], Record [''a'']]"
  have e: "reader_of ?rs (length ?rs) = EOF" by (rule reader_of_length)
  have a: "\<forall>k<length ?rs. reader_of ?rs k \<noteq> EOF" by (rule reader_of_no_EOF) simp
  have b: "length ?rs < 2 ^ 63" by simp
  have c: "True \<or> unparseable (map (reader_of ?rs) [0..<length ?rs]) = []" by simp
  have s: "(1::64 word) <s 2" by (simp add: word_sless_alt)
  from line_index_counts_parsed_lines [OF e a b c s, of "''o-errors.log''" "'',''",
      unfolded map_reader_of]
  show ?thesis by (simp add: sanitize_def strip_quotes_def)
qed

subsection \<open>The log file and the fatal exits\<close>

text \<open>
  C7. For every run in which the log file can be created. A run that ends before the
  source is read (the usage text, a missing flag, an invalid delimiter, a source that
  does not open) meets no failure and creates no log file. A run that reads the source,
  the reader returning \<open>n\<close> results before end of input, ends, and its failures are,
  from its inputs, the unparseable lines of the source and then, when the run gets to
  placing, the accepted records wider than the sheet. At the end of the run the log
  file exists if and only if there is at least one such failure; its name is the output
  file name without its extension followed by \<open>-errors.log\<close>; and it holds the
  entries of all the failures in order, from the first on, so it was created at the
  first failure and not again. The two error counts add up to the number of failures.
\<close>

theorem log_file_exists_iff_failure:
  assumes "createLog e"
  shows "(osArgs e = 1 \<or> sourceFile fl = [] \<or> templateFile fl = [] \<or> outputFile fl = []
          \<or> sheetName fl = [] \<or> (\<exists>err. resolve_delimiter (delimiter fl) = Inl err)
          \<or> \<not> openSource e
        \<longrightarrow> (\<exists>out st. main e fl = Some (out, st) \<and> logFile st = None))
    \<and> (osArgs e \<noteq> 1 \<and> sourceFile fl \<noteq> [] \<and> templateFile fl \<noteq> [] \<and> outputFile fl \<noteq> []
          \<and> sheetName fl \<noteq> [] \<and> resolve_delimiter (delimiter fl) = Inr d \<and> openSource e
          \<and> csvRead e d n = EOF \<and> (\<forall>k<n. csvRead e d k \<noteq> EOF) \<and> n < 2 ^ 63
        \<longrightarrow> (\<exists>out st base. main e fl = Some (out, st)
              \<and> outputFile fl = base @ Ext (outputFile fl)
              \<and> (logFile st \<noteq> None)
                   = (failures e fl (EncodeRune d) (map (csvRead e d) [0..<n]) \<noteq> [])
              \<and> logFile st
                   = (if failures e fl (EncodeRune d) (map (csvRead e d) [0..<n]) \<noteq> []
                      then Some (base @ ''-errors.log'',
                                 failures e fl (EncodeRune d) (map (csvRead e d) [0..<n]))
                      else None)
              \<and> errorCount st + notAppendedCount st
                   = length (failures e fl (EncodeRune d) (map (csvRead e d) [0..<n]))))"
proof (intro conjI impI)
  assume early: "osArgs e = 1 \<or> sourceFile fl = [] \<or> templateFile fl = [] \<or> outputFile fl = []
          \<or> sheetName fl = [] \<or> (\<exists>err. resolve_delimiter (delimiter fl) = Inl err)
          \<or> \<not> openSource e"
  have n: "logFile init_state = None" by (simp add: init_state_def)
  have "\<exists>out. main e fl = Some (out, init_state)"
  proof (cases "osArgs e = 1")
    case True
    then show ?thesis using main_early(1) by blast
  next
    case args: False
    show ?thesis
    proof (cases "sourceFile fl = [] \<or> templateFile fl = [] \<or> outputFile fl = [] \<or> sheetName fl = []")
      case True
      then show ?thesis using main_early(2) [OF args] by blast
    next
      case flags: False
      show ?thesis
      proof (cases "resolve_delimiter (delimiter fl)")
        case (Inl err)
        show ?thesis using main_early(3) [OF args flags Inl] by blast
      next
        case (Inr d')
        then have "\<not> openSource e" using early args flags by auto
        from main_early(4) [OF args flags Inr this] show ?thesis by blast
      qed
    qed
  qed
  then show "\<exists>out st. main e fl = Some (out, st) \<and> logFile st = None" using n by blast
next
  assume h: "osArgs e \<noteq> 1 \<and> sourceFile fl \<noteq> [] \<and> templateFile fl \<noteq> [] \<and> outputFile fl \<noteq> []
          \<and> sheetName fl \<noteq> [] \<and> resolve_delimiter (delimiter fl) = Inr d \<and> openSource e
          \<and> csvRead e d n = EOF \<and> (\<forall>k<n. csvRead e d k \<noteq> EOF) \<and> n < 2 ^ 63"
  let ?rs = "map (csvRead e d) [0..<n]"
  let ?nm = "logFileName (outputFile fl)"
  let ?sep = "EncodeRune d"
  let ?fs = "failures e fl ?sep ?rs"
  have eof: "csvRead e d n = EOF" "\<forall>k<n. csvRead e d k \<noteq> EOF" "n < 2 ^ 63"
    using h by simp_all
  have cr: "createLog e \<or> unparseable ?rs = []" using assms by simp
  from read_from_init [OF eof cr, where nm = ?nm and sep = ?sep and start = "startRow fl"]
  obtain st1 where l: "read_loop (csvRead e d) (createLog e) ?nm ?sep (startRow fl) 0 init_state
        = Some (Inr st1)"
    and d: "csvData st1 = accepted (startRow fl) ?rs"
    unfolding accepted_def by auto
  have r: "read_all (createLog e) ?nm ?sep (startRow fl) ?rs init_state = Inr st1"
    using l read_loop_from_0 [OF eof(1,2), where c = "createLog e" and nm = ?nm and sep = ?sep
        and start = "startRow fl" and st = init_state] by simp
  have m: "main e fl = Some (append_to_sheet e fl ?sep st1)"
    using main_read [of e fl d n] h r by simp
  from run_log [OF assms r d]
  obtain out st where a: "append_to_sheet e fl ?sep st1 = (out, st)"
    and f: "logFile st = (if ?fs \<noteq> [] then Some (?nm, ?fs) else None)"
    and k: "errorCount st + notAppendedCount st = length ?fs"
    by blast
  obtain base where b: "outputFile fl = base @ Ext (outputFile fl)"
    using Ext_suffix by blast
  have nm: "?nm = base @ ''-errors.log''" using logFileName_base [OF b] .
  have c1: "main e fl = Some (out, st)" using m a by simp
  have c3: "(logFile st \<noteq> None) = (?fs \<noteq> [])" using f by simp
  have c4: "logFile st = (if ?fs \<noteq> [] then Some (base @ ''-errors.log'', ?fs) else None)"
    using f unfolding nm .
  have "main e fl = Some (out, st)
              \<and> outputFile fl = base @ Ext (outputFile fl)
              \<and> (logFile st \<noteq> None) = (?fs \<noteq> [])
              \<and> logFile st = (if ?fs \<noteq> [] then Some (base @ ''-errors.log'', ?fs) else None)
              \<and> errorCount st + notAppendedCount st = length ?fs"
    by (intro conjI) (rule c1, rule b, rule c3, rule c4, rule k)
  then show "\<exists>out st base. main e fl = Some (out, st)
              \<and> outputFile fl = base @ Ext (outputFile fl)
              \<and> (logFile st \<noteq> None) = (?fs \<noteq> [])
              \<and> logFile st = (if ?fs \<noteq> [] then Some (base @ ''-errors.log'', ?fs) else None)
              \<and> errorCount st + notAppendedCount st = length ?fs"
    by (intro exI)
qed

text \<open>
  An unparseable line and a record wider than the sheet: the log exists and holds both
  entries. A clean source: no log. No arguments: the usage text and no log, whatever the
  source holds.
\<close>

theorem log_file_exists_iff_failure_witness:
  "(\<exists>out st.
      main \<lparr>osArgs = 11, openSource = True,
            csvRead = (\<lambda>d. reader_of [ParseError [''x''], Record [''a'', ''b'']]),
            createLog = True, openTemplate = True, sheetList = [''Data''],
            getSheetIndex = True, getRows = Some [[''h'']], saveAs = True\<rparr>
           \<lparr>sourceFile = ''in.csv'', templateFile = ''t.xlsx'', sheetName = ''Data'',
            delimiter = ''csv'', outputFile = ''out.xlsx'', startRow = 1\<rparr>
        = Some (out, st)
      \<and> logFile st = Some (''out-errors.log'',
            [''Error reading line: x'' @ [CHR 0x0A],
             ''Not appended (too many fields): a,b'' @ [CHR 0x0A]])
      \<and> errorCount st + notAppendedCount st = 2)
   \<and> (\<exists>out st.
      main \<lparr>osArgs = 11, openSource = True, csvRead = (\<lambda>d. reader_of [Record [''a'']]),
            createLog = True, openTemplate = True, sheetList = [''Data''],
            getSheetIndex = True, getRows = Some [[''h'']], saveAs = True\<rparr>
           \<lparr>sourceFile = ''in.csv'', templateFile = ''t.xlsx'', sheetName = ''Data'',
            delimiter = ''csv'', outputFile = ''out.xlsx'', startRow = 1\<rparr>
        = Some (out, st)
      \<and> logFile st = None \<and> errorCount st + notAppendedCount st = 0)
   \<and> (\<exists>out st.
      main \<lparr>osArgs = 1, openSource = True, csvRead = (\<lambda>d. reader_of [ParseError [''x'']]),
            createLog = True, openTemplate = True, sheetList = [''Data''],
            getSheetIndex = True, getRows = Some [[''h'']], saveAs = True\<rparr>
           \<lparr>sourceFile = [], templateFile = [], sheetName = [],
            delimiter = ''csv'', outputFile = [], startRow = 1\<rparr>
        = Some (out, st)
      \<and> logFile st = None)"
proof -
  let ?fl = "\<lparr>sourceFile = ''in.csv'', templateFile = ''t.xlsx'', sheetName = ''Data'',
            delimiter = ''csv'', outputFile = ''out.xlsx'', startRow = 1\<rparr>"
  let ?r1 = "[ParseError [''x''], Record [''a'', ''b'']]"
  let ?e1 = "\<lparr>osArgs = 11, openSource = True, csvRead = (\<lambda>d. reader_of ?r1),
            createLog = True, openTemplate = True, sheetList = [''Data''],
            getSheetIndex = True, getRows = Some [[''h'']], saveAs = True\<rparr>"
  let ?r2 = "[Record [''a'']]"
  let ?e2 = "\<lparr>osArgs = 11, openSource = True, csvRead = (\<lambda>d. reader_of ?r2),
            createLog = True, openTemplate = True, sheetList = [''Data''],
            getSheetIndex = True, getRows = Some [[''h'']], saveAs = True\<rparr>"
  let ?e3 = "\<lparr>osArgs = 1, openSource = True, csvRead = (\<lambda>d. reader_of [ParseError [''x'']]),
            createLog = True, openTemplate = True, sheetList = [''Data''],
            getSheetIndex = True, getRows = Some [[''h'']], saveAs = True\<rparr>"
  let ?fl3 = "\<lparr>sourceFile = [], templateFile = [], sheetName = [],
            delimiter = ''csv'', outputFile = [], startRow = 1\<rparr>"
  have d: "resolve_delimiter ''csv'' = Inr 44" by (simp add: resolve_delimiter_def)
  have sep: "EncodeRune 44 = '',''" by (simp add: EncodeRune_def char_of_eq_iff)
  have x: "Ext ''out.xlsx'' = ''.xlsx''" by (simp add: Ext_def)
  have b: "(''out.xlsx'' = base @ ''.xlsx'') = (base = ''out'')" for base
    using append_same_eq [of "''out''" "''.xlsx''" base] by auto
  have e1: "reader_of ?r1 (length ?r1) = EOF" "\<forall>k<length ?r1. reader_of ?r1 k \<noteq> EOF"
    "map (reader_of ?r1) [0..<length ?r1] = ?r1"
    using reader_of_length [of ?r1] reader_of_no_EOF [of ?r1] map_reader_of [of ?r1] by simp_all
  have e2: "reader_of ?r2 (length ?r2) = EOF" "\<forall>k<length ?r2. reader_of ?r2 k \<noteq> EOF"
    "map (reader_of ?r2) [0..<length ?r2] = ?r2"
    using reader_of_length [of ?r2] reader_of_no_EOF [of ?r2] map_reader_of [of ?r2] by simp_all
  have f1: "failures ?e1 ?fl '','' ?r1
      = [''Error reading line: x'' @ [CHR 0x0A],
         ''Not appended (too many fields): a,b'' @ [CHR 0x0A]]"
    by (simp add: failures_def placing_rows_def accepted_def oversized_def maxCols_def
        sanitize_def strip_quotes_def)
  have f2: "failures ?e2 ?fl '','' ?r2 = []"
    by (simp add: failures_def placing_rows_def accepted_def oversized_def maxCols_def
        sanitize_def strip_quotes_def)
  have t1: "\<exists>out st. main ?e1 ?fl = Some (out, st)
      \<and> logFile st = Some (''out-errors.log'',
            [''Error reading line: x'' @ [CHR 0x0A],
             ''Not appended (too many fields): a,b'' @ [CHR 0x0A]])
      \<and> errorCount st + notAppendedCount st = 2"
    using log_file_exists_iff_failure [where e = ?e1 and fl = ?fl and d = 44
        and n = "length ?r1", THEN conjunct2] d e1
    by (auto simp: sep x b f1)
  have t2: "\<exists>out st. main ?e2 ?fl = Some (out, st)
      \<and> logFile st = None \<and> errorCount st + notAppendedCount st = 0"
    using log_file_exists_iff_failure [where e = ?e2 and fl = ?fl and d = 44
        and n = "length ?r2", THEN conjunct2] d e2
    by (auto simp: sep x b f2)
  have t3: "\<exists>out st. main ?e3 ?fl3 = Some (out, st) \<and> logFile st = None"
    using log_file_exists_iff_failure [where e = ?e3 and fl = ?fl3, THEN conjunct1]
    by simp
  show ?thesis using t1 t2 t3 by (intro conjI)
qed

text \<open>
  C8. When the flags are given, the delimiter resolves, the source and the template open
  and the reader reaches end of input, a sheet name that is not in the template's sheet
  list ends the run with the fatal error naming the sheet, with no output file saved and
  no cell written. The source has been read by then: the log file exists at that point
  exactly when the source has an unparseable line (and it must then have been
  creatable), and it holds those lines.
\<close>

theorem unknown_sheet_is_fatal:
  assumes "osArgs e \<noteq> 1" "sourceFile fl \<noteq> []" "templateFile fl \<noteq> []" "outputFile fl \<noteq> []"
    "sheetName fl \<noteq> []" "resolve_delimiter (delimiter fl) = Inr d" "openSource e"
    "csvRead e d n = EOF" "\<forall>k<n. csvRead e d k \<noteq> EOF"
    "createLog e \<or> unparseable (map (csvRead e d) [0..<n]) = []"
    "openTemplate e" "sheetName fl \<notin> set (sheetList e)"
  shows "\<exists>st. main e fl = Some (Fatal (SheetMissing (sheetName fl)), st)
    \<and> saved st = None \<and> cellWrites st = [] \<and> notAppendedCount st = 0
    \<and> logFile st = (if unparseable (map (csvRead e d) [0..<n]) \<noteq> []
         then Some (logFileName (outputFile fl),
                map (\<lambda>rec. ''Error reading line: '' @ Join rec (EncodeRune d) @ [CHR 0x0A])
                  (unparseable (map (csvRead e d) [0..<n])))
         else None)"
proof -
  let ?rs = "map (csvRead e d) [0..<n]"
  from read_all_init [OF assms(10), where nm = "logFileName (outputFile fl)"
      and sep = "EncodeRune d" and start = "startRow fl"]
  obtain st where r: "read_all (createLog e) (logFileName (outputFile fl)) (EncodeRune d)
        (startRow fl) ?rs init_state = Inr st"
    and f: "logFile st = (if unparseable ?rs \<noteq> []
         then Some (logFileName (outputFile fl),
                map (\<lambda>rec. ''Error reading line: '' @ Join rec (EncodeRune d) @ [CHR 0x0A])
                  (unparseable ?rs))
         else None)"
    and z: "notAppendedCount st = 0" "cellWrites st = []" "saved st = None"
    by auto
  have a: "append_to_sheet e fl (EncodeRune d) st = (Fatal (SheetMissing (sheetName fl)), st)"
    using assms(11,12) by (simp add: append_to_sheet_def sheetExists_iff)
  have "main e fl = Some (Fatal (SheetMissing (sheetName fl)), st)"
    using main_read [OF assms(1-9)] r a by simp
  then show ?thesis using f z by simp
qed

text \<open>A source without unparseable lines: no log file at the fatal exit.\<close>

theorem unknown_sheet_is_fatal_witness:
  "\<exists>st.
     main \<lparr>osArgs = 11, openSource = True, csvRead = (\<lambda>d. reader_of [Record [''a'', ''b'']]),
           createLog = True, openTemplate = True, sheetList = [''Sheet1''],
           getSheetIndex = True, getRows = Some [], saveAs = True\<rparr>
          \<lparr>sourceFile = ''in.csv'', templateFile = ''t.xlsx'', sheetName = ''Data'',
           delimiter = ''csv'', outputFile = ''out.xlsx'', startRow = 1\<rparr>
       = Some (Fatal (SheetMissing ''Data''), st)
    \<and> saved st = None \<and> cellWrites st = [] \<and> notAppendedCount st = 0 \<and> logFile st = None"
proof -
  let ?rs = "[Record [''a'', ''b'']]"
  let ?e = "\<lparr>osArgs = 11, openSource = True, csvRead = (\<lambda>d. reader_of ?rs),
           createLog = True, openTemplate = True, sheetList = [''Sheet1''],
           getSheetIndex = True, getRows = Some [], saveAs = True\<rparr>"
  let ?fl = "\<lparr>sourceFile = ''in.csv'', templateFile = ''t.xlsx'', sheetName = ''Data'',
           delimiter = ''csv'', outputFile = ''out.xlsx'', startRow = 1\<rparr>"
  have d: "resolve_delimiter (delimiter ?fl) = Inr 44" by (simp add: resolve_delimiter_def)
  have e: "csvRead ?e 44 (length ?rs) = EOF" using reader_of_length [of ?rs] by simp
  have a: "\<forall>k<length ?rs. csvRead ?e 44 k \<noteq> EOF"
    using reader_of_no_EOF [of ?rs] by simp
  have m: "map (csvRead ?e 44) [0..<length ?rs] = ?rs" using map_reader_of [of ?rs] by simp
  have c: "createLog ?e \<or> unparseable (map (csvRead ?e 44) [0..<length ?rs]) = []" by simp
  from unknown_sheet_is_fatal [of ?e ?fl 44 "length ?rs", OF _ _ _ _ _ d _ e a c, unfolded m]
  show ?thesis by simp
qed

text \<open>
  A source with an unparseable line: the log file has been created and written when the
  run ends at the unknown sheet.
\<close>

theorem log_written_before_unknown_sheet_counterexample:
  "main \<lparr>osArgs = 11, openSource = True, csvRead = (\<lambda>d. reader_of [ParseError [''x'']]),
         createLog = True, openTemplate = True, sheetList = [''Sheet1''],
         getSheetIndex = True, getRows = Some [], saveAs = True\<rparr>
        \<lparr>sourceFile = ''in.csv'', templateFile = ''t.xlsx'', sheetName = ''Data'',
         delimiter = ''csv'', outputFile = ''out.xlsx'', startRow = 1\<rparr>
     = Some (Fatal (SheetMissing ''Data''),
         init_state\<lparr>hasErrors := True,
           logFile := Some (''out-errors.log'', [''Error reading line: x'' @ [CHR 0x0A]]),
           errorCount := 1\<rparr>)"
  by (simp add: main_def resolve_delimiter_def read_loop_reader_of init_state_def Let_def
      open_log_def write_log_def logFileName_def Ext_def TrimSuffix_def append_to_sheet_def)

subsection \<open>Sanitizing\<close>

text \<open>
  C10. Stripping the quotation marks of a field that has already been stripped
  returns the field unchanged, for every string.
\<close>

theorem strip_quotes_idempotent: "strip_quotes (strip_quotes s) = strip_quotes s"
  by (simp add: strip_quotes_def)

end
